theory Spec2Isabelle
  imports Complex_Main "HOL-Library.Word"
begin

unbundle bit_operations_syntax

section \<open>The Mandelbrot explorer of \<^verbatim>\<open>src/main.cpp\<close>\<close>

text \<open>
  The class \<^verbatim>\<open>MandelbrotExplorer\<close> is embedded function by function.

  Numbers. A C++ \<^verbatim>\<open>double\<close> is modelled by a \<^typ>\<open>real\<close> and a
  \<^verbatim>\<open>std::complex<double>\<close> by a \<^typ>\<open>complex\<close>: every finite double is a real
  number. Rounding is not modelled in the coordinates, the zoom and the colour
  channels, whose equations below are the exact-arithmetic reading of the code. It is
  kept open in \<^verbatim>\<open>calculateMandelbrot\<close>, whose result is a count that one rounding can
  change: the loop takes as arguments the two operations it performs on doubles, and
  what is proved of it holds for every rounding. The places where a
  double leaves the finite numbers (\<^verbatim>\<open>std::log2\<close> of an argument that is not
  positive gives an infinity or a NaN) are branches of the model that return an
  \<open>error\<close>, and so are the conversions and the integer division whose behaviour C++
  leaves undefined. A frame buffer cell holds what \<^verbatim>\<open>getColor\<close> returned for
  its pixel, the colour or the error: where the conversion is undefined C++ says nothing
  about the stored word, and the model keeps that fact in the cell instead of choosing
  a word. An \<^verbatim>\<open>int\<close> is an \<^typ>\<open>int\<close>: the iteration counts stay
  between 0 and the cap, far from overflow. A \<^verbatim>\<open>uint32_t\<close> is a \<^typ>\<open>32 word\<close>.

  Constants. The three \<^verbatim>\<open>static constexpr\<close> members are the constants
  \<open>WINDOW_WIDTH\<close>, \<open>WINDOW_HEIGHT\<close> and \<open>MAX_ITERATIONS\<close> below; the functions take
  the width \<open>W\<close>, the height \<open>H\<close> and the cap \<open>N\<close> as arguments, so that the
  theorems hold for every viewport and are stated at the program's own constants
  where a claim is about them.
\<close>

subsection \<open>Constants and errors\<close>

definition WINDOW_WIDTH :: nat where
  "WINDOW_WIDTH = 800"

definition WINDOW_HEIGHT :: nat where
  "WINDOW_HEIGHT = 600"

definition MAX_ITERATIONS :: int where
  "MAX_ITERATIONS = 1000"

datatype error =
    Log2Domain real       \<comment> \<open>\<^verbatim>\<open>std::log2\<close> called on this argument, which is not positive\<close>
  | CastOutOfRange real   \<comment> \<open>double to \<^verbatim>\<open>uint32_t\<close>, truncated value not representable\<close>
  | DivisionByZero        \<comment> \<open>integer division by zero\<close>
  | IndexOutOfBounds nat  \<comment> \<open>a vector accessed past its size\<close>

subsection \<open>The functions of \<^verbatim>\<open><cmath>\<close> that the code calls\<close>

text \<open>
  \<^verbatim>\<open>std::log2\<close> is finite only on positive arguments: at 0 it returns minus
  infinity, below 0 a NaN. Both are the error \<open>Log2Domain\<close> here.
\<close>

definition log2 :: "real \<Rightarrow> error + real" where
  "log2 x = (if x \<le> 0 then Inl (Log2Domain x) else Inr (log 2 x))"

text \<open>Rounding towards zero, as \<^verbatim>\<open>std::fmod\<close> and the conversion to an integer do.\<close>

definition trunc :: "real \<Rightarrow> int" where
  "trunc x = (if 0 \<le> x then \<lfloor>x\<rfloor> else \<lceil>x\<rceil>)"

text \<open>
  \<^verbatim>\<open>std::fmod(x, y)\<close> is \<open>x - n * y\<close> with \<open>n\<close> the quotient \<open>x / y\<close> rounded
  towards zero. The code calls it with \<open>y = 1.0\<close> only.
\<close>

definition fmod :: "real \<Rightarrow> real \<Rightarrow> real" where
  "fmod x y = x - of_int (trunc (x / y)) * y"

text \<open>
  \<^verbatim>\<open>static_cast<uint32_t>(d)\<close> truncates towards zero; the behaviour is undefined
  when the truncated value does not fit the 32 bits.
\<close>

definition to_uint32 :: "real \<Rightarrow> error + 32 word" where
  "to_uint32 d = (if 0 \<le> trunc d \<and> trunc d < 2 ^ 32 then Inr (word_of_int (trunc d))
                  else Inl (CastOutOfRange d))"

subsection \<open>\<^verbatim>\<open>getColor\<close> (lines 28 to 43)\<close>

text \<open>
  \<^verbatim>\<open>r << 16 | g << 8 | b\<close>: the shifts bind tighter than the bitwise or.
\<close>

definition pack_rgb :: "32 word \<Rightarrow> 32 word \<Rightarrow> 32 word \<Rightarrow> 32 word" where
  "pack_rgb r g b = push_bit 16 r OR push_bit 8 g OR b"

definition getColor :: "int \<Rightarrow> int \<Rightarrow> error + 32 word" where
  "getColor N iterations =
     (if iterations = N then Inr 0
      else
        case log2 (real_of_int \<bar>iterations\<bar>) of
          Inl e \<Rightarrow> Inl e
        | Inr l \<Rightarrow>
           (case log2 l of
              Inl e \<Rightarrow> Inl e
            | Inr ll \<Rightarrow>
               (let smooth = real_of_int (iterations + 1) - ll;
                    hue = fmod (smooth / 32) 1;
                    r = \<bar>sin (2 * pi * (hue + 0 / 3))\<bar>;
                    g = \<bar>sin (2 * pi * (hue + 1 / 3))\<bar>;
                    b = \<bar>sin (2 * pi * (hue + 2 / 3))\<bar>
                in case to_uint32 (r * 255) of
                     Inl e \<Rightarrow> Inl e
                   | Inr rw \<Rightarrow>
                      (case to_uint32 (g * 255) of
                         Inl e \<Rightarrow> Inl e
                       | Inr gw \<Rightarrow>
                          (case to_uint32 (b * 255) of
                             Inl e \<Rightarrow> Inl e
                           | Inr bw \<Rightarrow> Inr (pack_rgb rw gw bw))))))"

subsection \<open>\<^verbatim>\<open>calculateMandelbrot\<close> (lines 45 to 57)\<close>

text \<open>
  The \<^verbatim>\<open>while\<close> loop, with its state \<open>z\<close> and \<open>iterations\<close>. The test
  \<^verbatim>\<open>if (zabs > 2.0) break;\<close> of the body is kept as the code has it.

  The loop does two things with doubles: \<open>fp_abs z\<close> is what \<^verbatim>\<open>std::abs(z)\<close>
  returns and \<open>fp_step z c\<close> is what \<^verbatim>\<open>z * z + c\<close> evaluates to, each with the
  rounding of the machine. Both are arguments of the model. For a finite \<open>c\<close> the
  values stay finite, since \<open>z\<close> is squared only while its magnitude is at most 2; a
  magnitude that overflows is above 2 like any real number above 2.
\<close>

function calculateMandelbrot_loop ::
  "(complex \<Rightarrow> real) \<Rightarrow> (complex \<Rightarrow> complex \<Rightarrow> complex) \<Rightarrow> int \<Rightarrow> complex \<Rightarrow> complex \<Rightarrow> int
   \<Rightarrow> int" where
  "calculateMandelbrot_loop fp_abs fp_step N c z iterations =
     (let zabs = fp_abs z in
      if zabs \<le> 2 \<and> iterations < N then
        (if zabs > 2 then iterations
         else calculateMandelbrot_loop fp_abs fp_step N c (fp_step z c) (iterations + 1))
      else iterations)"
  by pat_completeness auto
termination
  by (relation "measure (\<lambda>(fp_abs, fp_step, N, c, z, iterations). nat (N - iterations))") auto

definition calculateMandelbrot_fp ::
  "(complex \<Rightarrow> real) \<Rightarrow> (complex \<Rightarrow> complex \<Rightarrow> complex) \<Rightarrow> int \<Rightarrow> complex \<Rightarrow> int" where
  "calculateMandelbrot_fp fp_abs fp_step N c = calculateMandelbrot_loop fp_abs fp_step N c 0 0"

text \<open>
  The function at exact arithmetic, the modulus for \<^verbatim>\<open>std::abs\<close> and the exact
  \<open>z * z + c\<close>: the reading that the render pass below uses, as it uses the exact
  coordinates.
\<close>

definition calculateMandelbrot :: "int \<Rightarrow> complex \<Rightarrow> int" where
  "calculateMandelbrot N c = calculateMandelbrot_fp cmod (\<lambda>z c. z * z + c) N c"

text \<open>
  The orbit \<open>z\<^sub>0 = 0\<close>, \<open>z\<^sub>n\<^sub>+\<^sub>1 = z\<^sub>n\<^sup>2 + c\<close> that the loop walks along, as the program
  computes it: each term comes from the one before by \<open>fp_step\<close>.
\<close>

fun orbit_fp :: "(complex \<Rightarrow> complex \<Rightarrow> complex) \<Rightarrow> complex \<Rightarrow> nat \<Rightarrow> complex" where
  "orbit_fp fp_step c 0 = 0"
| "orbit_fp fp_step c (Suc n) = fp_step (orbit_fp fp_step c n) c"

subsection \<open>The object's fields\<close>

text \<open>
  The data members of lines 17 to 26. \<open>presented\<close> stands for the display surface
  behind \<^verbatim>\<open>texture\<close> and \<^verbatim>\<open>renderer\<close>: the frames handed to
  \<^verbatim>\<open>SDL_UpdateTexture\<close> and presented, the newest first.
\<close>

type_synonym pixel = "error + 32 word"

record explorer =
  pixels :: "pixel list"
  tempPixels :: "pixel list"
  centerX :: real
  centerY :: real
  zoom :: real
  dragStart :: "int \<times> int"
  isDragging :: bool
  presented :: "pixel list list"

text \<open>
  The constructor (lines 111 to 113) and the member initialisers: two buffers of
  \<open>W * H\<close> zeros, the view at \<open>(-0.5, 0)\<close> with zoom 1, no drag.
\<close>

definition new_explorer :: "nat \<Rightarrow> nat \<Rightarrow> explorer" where
  "new_explorer W H =
     \<lparr>pixels = replicate (W * H) (Inr 0), tempPixels = replicate (W * H) (Inr 0),
      centerX = - 0.5, centerY = 0, zoom = 1,
      dragStart = (0, 0), isDragging = False, presented = []\<rparr>"

subsection \<open>The coordinate mapping (lines 67, 68 and again 200, 201)\<close>

definition complexFromPixel :: "nat \<Rightarrow> nat \<Rightarrow> explorer \<Rightarrow> int \<Rightarrow> int \<Rightarrow> complex" where
  "complexFromPixel W H st x y =
     Complex ((real_of_int x - real W / 2) / (zoom st * real W / 4) + centerX st)
             ((real_of_int y - real H / 2) / (zoom st * real W / 4) + centerY st)"

subsection \<open>\<^verbatim>\<open>renderMandelbrot\<close> (lines 59 to 108)\<close>

text \<open>
  The lambda \<^verbatim>\<open>renderLine\<close>: the inner loop over \<open>x\<close> is \<open>renderLine_row\<close> on
  the list \<open>[0..<W]\<close>, the outer loop over \<open>y\<close> is \<open>renderLine_rows\<close> on
  \<open>[startY..<endY]\<close>. A write past the end of the buffer is an error.
\<close>

fun renderLine_row ::
  "nat \<Rightarrow> nat \<Rightarrow> int \<Rightarrow> explorer \<Rightarrow> nat \<Rightarrow> nat list \<Rightarrow> pixel list \<Rightarrow> error + pixel list" where
  "renderLine_row W H N st y [] buffer = Inr buffer"
| "renderLine_row W H N st y (x # xs) buffer =
     (let c = complexFromPixel W H st (int x) (int y);
          iterations = calculateMandelbrot N c
      in if y * W + x < length buffer
         then renderLine_row W H N st y xs (buffer[y * W + x := getColor N iterations])
         else Inl (IndexOutOfBounds (y * W + x)))"

fun renderLine_rows ::
  "nat \<Rightarrow> nat \<Rightarrow> int \<Rightarrow> explorer \<Rightarrow> nat list \<Rightarrow> pixel list \<Rightarrow> error + pixel list" where
  "renderLine_rows W H N st [] buffer = Inr buffer"
| "renderLine_rows W H N st (y # ys) buffer =
     (case renderLine_row W H N st y [0..<W] buffer of
        Inl e \<Rightarrow> Inl e
      | Inr buffer' \<Rightarrow> renderLine_rows W H N st ys buffer')"

definition renderLine ::
  "nat \<Rightarrow> nat \<Rightarrow> int \<Rightarrow> explorer \<Rightarrow> pixel list \<Rightarrow> nat \<Rightarrow> nat \<Rightarrow> error + pixel list" where
  "renderLine W H N st buffer startY endY = renderLine_rows W H N st [startY..<endY] buffer"

text \<open>
  The row range of thread \<open>i\<close> (lines 80, 81 and again 92, 93), for
  \<open>linesPerThread = H / numThreads\<close>.
\<close>

definition tile_startY :: "nat \<Rightarrow> nat \<Rightarrow> nat" where
  "tile_startY linesPerThread i = i * linesPerThread"

definition tile_endY :: "nat \<Rightarrow> nat \<Rightarrow> nat \<Rightarrow> nat \<Rightarrow> nat" where
  "tile_endY H numThreads linesPerThread i =
     (if int i = int numThreads - 1 then H else (i + 1) * linesPerThread)"

text \<open>
  The threads. Thread \<open>i\<close> writes \<^verbatim>\<open>threadBuffers[i]\<close> and nothing else, and
  reads the view, which nobody writes before the joins of lines 86 to 88: whatever the
  interleaving, each buffer ends as if its thread had run alone. The model runs the
  threads in the order of their creation.
\<close>

fun run_threads ::
  "nat \<Rightarrow> nat \<Rightarrow> int \<Rightarrow> nat \<Rightarrow> explorer \<Rightarrow> nat \<Rightarrow> nat list \<Rightarrow> pixel list list
   \<Rightarrow> error + pixel list list" where
  "run_threads W H N numThreads st linesPerThread [] threadBuffers = Inr threadBuffers"
| "run_threads W H N numThreads st linesPerThread (i # is) threadBuffers =
     (let startY = tile_startY linesPerThread i;
          endY = tile_endY H numThreads linesPerThread i
      in if i < length threadBuffers then
           (case renderLine W H N st (threadBuffers ! i) startY endY of
              Inl e \<Rightarrow> Inl e
            | Inr buffer \<Rightarrow>
                run_threads W H N numThreads st linesPerThread is (threadBuffers[i := buffer]))
         else Inl (IndexOutOfBounds i))"

text \<open>
  \<^verbatim>\<open>std::copy(src.begin() + lo, src.begin() + hi, dst.begin() + lo)\<close>:
  the cells \<open>lo..<hi\<close> of \<open>dst\<close> become those of \<open>src\<close>; both vectors must
  reach \<open>hi\<close>.
\<close>

definition copy_rows :: "'a list \<Rightarrow> nat \<Rightarrow> nat \<Rightarrow> 'a list \<Rightarrow> error + 'a list" where
  "copy_rows src lo hi dst =
     (if lo \<le> hi \<and> hi \<le> length src \<and> hi \<le> length dst
      then Inr (take lo dst @ take (hi - lo) (drop lo src) @ drop hi dst)
      else Inl (IndexOutOfBounds hi))"

fun combine_buffers ::
  "nat \<Rightarrow> nat \<Rightarrow> nat \<Rightarrow> nat \<Rightarrow> nat list \<Rightarrow> pixel list list \<Rightarrow> pixel list
   \<Rightarrow> error + pixel list" where
  "combine_buffers W H numThreads linesPerThread [] threadBuffers tmp = Inr tmp"
| "combine_buffers W H numThreads linesPerThread (i # is) threadBuffers tmp =
     (let startY = tile_startY linesPerThread i;
          endY = tile_endY H numThreads linesPerThread i
      in if i < length threadBuffers then
           (case copy_rows (threadBuffers ! i) (startY * W) (endY * W) tmp of
              Inl e \<Rightarrow> Inl e
            | Inr tmp' \<Rightarrow> combine_buffers W H numThreads linesPerThread is threadBuffers tmp')
         else Inl (IndexOutOfBounds i))"

text \<open>
  The whole pass. \<open>numThreads\<close> is what \<^verbatim>\<open>std::thread::hardware_concurrency()\<close>
  returned; at 0 the division of line 78 is undefined. After the swap of line 103 the
  new \<open>pixels\<close> go to the display.
\<close>

definition renderMandelbrot ::
  "nat \<Rightarrow> nat \<Rightarrow> int \<Rightarrow> nat \<Rightarrow> explorer \<Rightarrow> error + explorer" where
  "renderMandelbrot W H N numThreads st =
     (let threadBuffers = replicate numThreads (replicate (W * H) (Inr 0)) in
      if numThreads = 0 then Inl DivisionByZero
      else
        let linesPerThread = H div numThreads in
        case run_threads W H N numThreads st linesPerThread [0..<numThreads] threadBuffers of
          Inl e \<Rightarrow> Inl e
        | Inr threadBuffers' \<Rightarrow>
           (case combine_buffers W H numThreads linesPerThread [0..<numThreads]
                   threadBuffers' (tempPixels st) of
              Inl e \<Rightarrow> Inl e
            | Inr tmp \<Rightarrow>
                Inr (st\<lparr>pixels := tmp, tempPixels := pixels st,
                         presented := tmp # presented st\<rparr>)))"

subsection \<open>The event loop of \<^verbatim>\<open>run\<close> (lines 171 to 220)\<close>

text \<open>
  The events that reach the view: the two button events, the pointer move and the
  scroll. The scroll carries, beside \<^verbatim>\<open>event.wheel.y\<close>, the pointer position that
  \<^verbatim>\<open>SDL_GetMouseState\<close> returns at line 198.
\<close>

datatype event =
    MouseButtonDown nat int int   \<comment> \<open>button, x, y\<close>
  | MouseButtonUp nat int int     \<comment> \<open>button, x, y\<close>
  | MouseMotion int int           \<comment> \<open>x, y\<close>
  | MouseWheel int int int        \<comment> \<open>wheel.y, mouseX, mouseY\<close>

definition SDL_BUTTON_LEFT :: nat where
  "SDL_BUTTON_LEFT = 1"

text \<open>
  The loop of lines 208 to 218. \<open>steps\<close> is a double that counts 1, 2, ...; it is a
  natural number here. The loop is left through its condition or through the
  \<^verbatim>\<open>break\<close> of line 217.
\<close>

function wheel_loop ::
  "nat \<Rightarrow> nat \<Rightarrow> int \<Rightarrow> nat \<Rightarrow> int \<Rightarrow> int \<Rightarrow> real \<Rightarrow> real \<Rightarrow> real \<Rightarrow> nat \<Rightarrow> real \<Rightarrow> explorer
   \<Rightarrow> error + explorer" where
  "wheel_loop W H N numThreads mouseX mouseY mouseWorldX mouseWorldY targetZoom steps
      currentZoom st =
     (if \<bar>currentZoom - targetZoom\<bar> > 0.0001 then
        (let currentZoom' = zoom st + (targetZoom - zoom st) * (real steps / 10);
             st1 = st\<lparr>zoom := currentZoom'\<rparr>;
             st2 = st1\<lparr>centerX :=
                      mouseWorldX - (real_of_int mouseX - real W / 2) / (zoom st1 * real W / 4)\<rparr>;
             st3 = st2\<lparr>centerY :=
                      mouseWorldY - (real_of_int mouseY - real H / 2) / (zoom st2 * real W / 4)\<rparr>
         in case renderMandelbrot W H N numThreads st3 of
              Inl e \<Rightarrow> Inl e
            | Inr st4 \<Rightarrow>
                if steps + 1 > 10 then Inr st4
                else wheel_loop W H N numThreads mouseX mouseY mouseWorldX mouseWorldY
                       targetZoom (steps + 1) currentZoom' st4)
      else Inr st)"
  by pat_completeness auto
termination
  by (relation "measure (\<lambda>(W, H, N, numThreads, mouseX, mouseY, mouseWorldX, mouseWorldY,
        targetZoom, steps, currentZoom, st). 11 - steps)") auto

fun handle_event :: "nat \<Rightarrow> nat \<Rightarrow> int \<Rightarrow> nat \<Rightarrow> explorer \<Rightarrow> event \<Rightarrow> error + explorer" where
  "handle_event W H N numThreads st (MouseButtonDown button x y) =
     (if button = SDL_BUTTON_LEFT
      then Inr (st\<lparr>dragStart := (x, y), isDragging := True\<rparr>)
      else Inr st)"
| "handle_event W H N numThreads st (MouseButtonUp button x y) =
     (if button = SDL_BUTTON_LEFT then Inr (st\<lparr>isDragging := False\<rparr>) else Inr st)"
| "handle_event W H N numThreads st (MouseMotion x y) =
     (if isDragging st then
        (let dx = real_of_int (x - fst (dragStart st)) / (zoom st * real W / 4);
             dy = real_of_int (y - snd (dragStart st)) / (zoom st * real W / 4)
         in renderMandelbrot W H N numThreads
              (st\<lparr>centerX := centerX st - dx, centerY := centerY st - dy,
                   dragStart := (x, y)\<rparr>))
      else Inr st)"
| "handle_event W H N numThreads st (MouseWheel wheel_y mouseX mouseY) =
     (let mouseWorldX = (real_of_int mouseX - real W / 2) / (zoom st * real W / 4) + centerX st;
          mouseWorldY = (real_of_int mouseY - real H / 2) / (zoom st * real W / 4) + centerY st;
          targetZoom = (if wheel_y > 0 then zoom st * 1.1 else zoom st / 1.1)
      in wheel_loop W H N numThreads mouseX mouseY mouseWorldX mouseWorldY targetZoom 1
           (zoom st) st)"

text \<open>The inner \<^verbatim>\<open>while (SDL_PollEvent(&event))\<close> on a queue of events.\<close>

fun handle_events ::
  "nat \<Rightarrow> nat \<Rightarrow> int \<Rightarrow> nat \<Rightarrow> explorer \<Rightarrow> event list \<Rightarrow> error + explorer" where
  "handle_events W H N numThreads st [] = Inr st"
| "handle_events W H N numThreads st (ev # evs) =
     (case handle_event W H N numThreads st ev of
        Inl e \<Rightarrow> Inl e
      | Inr st' \<Rightarrow> handle_events W H N numThreads st' evs)"

subsection \<open>What a render pass computes\<close>

text \<open>
  The colour of the pixel with linear index \<open>i\<close>, that is of column \<open>i mod W\<close> in
  row \<open>i div W\<close>, as the body of \<^verbatim>\<open>renderLine\<close> computes it (lines 67 to 72), and
  the buffer that holds it for every index.
\<close>

definition pixel_color :: "nat \<Rightarrow> nat \<Rightarrow> int \<Rightarrow> explorer \<Rightarrow> nat \<Rightarrow> pixel" where
  "pixel_color W H N st i =
     getColor N (calculateMandelbrot N (complexFromPixel W H st (int (i mod W)) (int (i div W))))"

definition frame :: "nat \<Rightarrow> nat \<Rightarrow> int \<Rightarrow> explorer \<Rightarrow> pixel list" where
  "frame W H N st = map (pixel_color W H N st) [0..<W * H]"

text \<open>The cells of the rows of thread \<open>i\<close>, as both loops of the pass delimit them.\<close>

definition in_tile :: "nat \<Rightarrow> nat \<Rightarrow> nat \<Rightarrow> nat \<Rightarrow> nat \<Rightarrow> bool" where
  "in_tile W H numThreads i j \<longleftrightarrow>
     tile_startY (H div numThreads) i * W \<le> j \<and>
     j < tile_endY H numThreads (H div numThreads) i * W"

text \<open>The sizes the constructor gives to the two buffers.\<close>

definition buffers_sized :: "nat \<Rightarrow> nat \<Rightarrow> explorer \<Rightarrow> bool" where
  "buffers_sized W H st \<longleftrightarrow> length (pixels st) = W * H \<and> length (tempPixels st) = W * H"

text \<open>
  The zoom after \<open>k\<close> passes through the body of the scroll loop: pass \<open>k + 1\<close>
  executes line 209 with \<open>steps = k + 1\<close> on the zoom that pass \<open>k\<close> left.
\<close>

fun wheel_zoom :: "real \<Rightarrow> real \<Rightarrow> nat \<Rightarrow> real" where
  "wheel_zoom targetZoom z 0 = z"
| "wheel_zoom targetZoom z (Suc k) =
     wheel_zoom targetZoom z k + (targetZoom - wheel_zoom targetZoom z k) * (real (Suc k) / 10)"

text \<open>The state that a completed pass leaves (lines 103, 104): the buffers swapped, the frame shown.\<close>

definition present_frame :: "nat \<Rightarrow> nat \<Rightarrow> int \<Rightarrow> explorer \<Rightarrow> explorer" where
  "present_frame W H N st =
     st\<lparr>pixels := frame W H N st, tempPixels := pixels st,
        presented := frame W H N st # presented st\<rparr>"

text \<open>
  The assignments of one pass through the body of the scroll loop (lines 209 to 213),
  and the state after \<open>k\<close> passes, each followed by its render (line 215).
\<close>

definition wheel_body ::
  "nat \<Rightarrow> nat \<Rightarrow> int \<Rightarrow> int \<Rightarrow> real \<Rightarrow> real \<Rightarrow> real \<Rightarrow> nat \<Rightarrow> explorer \<Rightarrow> explorer" where
  "wheel_body W H mouseX mouseY mouseWorldX mouseWorldY targetZoom steps st =
     (let z = zoom st + (targetZoom - zoom st) * (real steps / 10)
      in st\<lparr>zoom := z,
            centerX := mouseWorldX - (real_of_int mouseX - real W / 2) / (z * real W / 4),
            centerY := mouseWorldY - (real_of_int mouseY - real H / 2) / (z * real W / 4)\<rparr>)"

fun wheel_after ::
  "nat \<Rightarrow> nat \<Rightarrow> int \<Rightarrow> int \<Rightarrow> int \<Rightarrow> real \<Rightarrow> real \<Rightarrow> real \<Rightarrow> nat \<Rightarrow> explorer \<Rightarrow> explorer" where
  "wheel_after W H N mouseX mouseY mouseWorldX mouseWorldY targetZoom 0 st = st"
| "wheel_after W H N mouseX mouseY mouseWorldX mouseWorldY targetZoom (Suc k) st =
     present_frame W H N
       (wheel_body W H mouseX mouseY mouseWorldX mouseWorldY targetZoom (Suc k)
          (wheel_after W H N mouseX mouseY mouseWorldX mouseWorldY targetZoom k st))"

subsection \<open>The colour of an escaped point\<close>

text \<open>
  Lines 32 and 33 and one channel of lines 36 to 42, for the iteration count that
  \<^verbatim>\<open>getColor\<close> receives.
\<close>

definition hue_of :: "int \<Rightarrow> real" where
  "hue_of iterations =
     fmod ((real_of_int (iterations + 1) - log 2 (log 2 (real_of_int \<bar>iterations\<bar>))) / 32) 1"

definition channel_byte :: "real \<Rightarrow> real \<Rightarrow> int" where
  "channel_byte hue offset = \<lfloor>\<bar>sin (2 * pi * (hue + offset))\<bar> * 255\<rfloor>"

subsection \<open>The specification's words, for comparison\<close>

text \<open>
  The colour mapper as section 4.3 of the specification words it, a function of the
  iteration count and of the escaped magnitude \<open>|z|\<close>: interior points black, otherwise
  \<open>smooth = iterations + 1 - log2(log2(|z|))\<close>, \<open>hue = fmod(smooth / 32, 1.0)\<close>, the
  channels \<open>|sin(2\<pi>(hue + offset))|\<close> for the offsets 0, 1/3 and 2/3, each scaled to
  8 bits and packed.
\<close>

definition spec_getColor :: "int \<Rightarrow> int \<Rightarrow> real \<Rightarrow> 32 word" where
  "spec_getColor N iterations zmag =
     (if iterations = N then 0
      else
        let smooth = real_of_int iterations + 1 - log 2 (log 2 zmag);
            hue = fmod (smooth / 32) 1;
            channel = (\<lambda>offset. \<bar>sin (2 * pi * (hue + offset))\<bar>)
        in pack_rgb (word_of_int \<lfloor>channel 0 * 255\<rfloor>)
                    (word_of_int \<lfloor>channel (1 / 3) * 255\<rfloor>)
                    (word_of_int \<lfloor>channel (2 / 3) * 255\<rfloor>))"

text \<open>
  The zoom of a scroll as section 4.5 of the specification words it: up to \<open>n\<close>
  sub-steps, each moving the zoom 1/10 of the way from its current value to the target,
  stopping early once the two are within 0.0001.
\<close>

fun spec_zoom_substeps :: "real \<Rightarrow> nat \<Rightarrow> real \<Rightarrow> real" where
  "spec_zoom_substeps targetZoom 0 z = z"
| "spec_zoom_substeps targetZoom (Suc n) z =
     (if \<bar>z - targetZoom\<bar> \<le> 0.0001 then z
      else spec_zoom_substeps targetZoom n (z + (targetZoom - z) / 10))"

text \<open>
  Modelled from the spec: the pixel-from-complex direction of the coordinate mapper
  (section 4.1 and the mapping inverse of section 8). \<^verbatim>\<open>src/main.cpp\<close> has no such
  function; the specification says only that it inverts the mapping of lines 67 and
  68, which fixes it as below.
\<close>

definition pixelFromComplex :: "nat \<Rightarrow> nat \<Rightarrow> explorer \<Rightarrow> complex \<Rightarrow> real \<times> real" where
  "pixelFromComplex W H st c =
     ((Re c - centerX st) * (zoom st * real W / 4) + real W / 2,
      (Im c - centerY st) * (zoom st * real W / 4) + real H / 2)"

section \<open>The calculation of the escape time\<close>

declare calculateMandelbrot_loop.simps [simp del]

lemma loop_stop:
  "\<not> (fp_abs z \<le> 2 \<and> iterations < N) \<Longrightarrow>
   calculateMandelbrot_loop fp_abs fp_step N c z iterations = iterations"
  by (subst calculateMandelbrot_loop.simps) (auto simp: Let_def)

lemma loop_step:
  "fp_abs z \<le> 2 \<Longrightarrow> iterations < N \<Longrightarrow>
   calculateMandelbrot_loop fp_abs fp_step N c z iterations =
   calculateMandelbrot_loop fp_abs fp_step N c (fp_step z c) (iterations + 1)"
  by (subst calculateMandelbrot_loop.simps) (simp add: Let_def)

lemma loop_bounds:
  "iterations \<le> N \<Longrightarrow>
   iterations \<le> calculateMandelbrot_loop fp_abs fp_step N c z iterations \<and>
   calculateMandelbrot_loop fp_abs fp_step N c z iterations \<le> N"
proof (induction fp_abs fp_step N c z iterations rule: calculateMandelbrot_loop.induct)
  case (1 fp_abs fp_step N c z iterations)
  show ?case
  proof (cases "fp_abs z \<le> 2 \<and> iterations < N")
    case True
    then have "iterations + 1 \<le> N" by simp
    with "1.IH" [OF refl] True
    have "iterations + 1 \<le>
            calculateMandelbrot_loop fp_abs fp_step N c (fp_step z c) (iterations + 1) \<and>
          calculateMandelbrot_loop fp_abs fp_step N c (fp_step z c) (iterations + 1) \<le> N"
      by simp
    with True show ?thesis
      by (simp add: loop_step)
  next
    case False
    with "1.prems" show ?thesis
      by (simp add: loop_stop)
  qed
qed

lemma loop_orbit:
  "int n \<le> N \<Longrightarrow>
   k = calculateMandelbrot_loop fp_abs fp_step N c (orbit_fp fp_step c n) (int n) \<Longrightarrow>
   (\<forall>j. n \<le> j \<and> int j < k \<longrightarrow> fp_abs (orbit_fp fp_step c j) \<le> 2) \<and>
   (k < N \<longrightarrow> 2 < fp_abs (orbit_fp fp_step c (nat k)))"
proof (induction "nat (N - int n)" arbitrary: n k)
  case 0
  then have "int n = N" by simp
  then have "k = int n" using 0 by (simp add: loop_stop)
  then show ?case using \<open>int n = N\<close> by simp
next
  case (Suc m)
  then have lt: "int n < N" by simp
  show ?case
  proof (cases "fp_abs (orbit_fp fp_step c n) \<le> 2")
    case True
    let ?k' = "calculateMandelbrot_loop fp_abs fp_step N c (orbit_fp fp_step c (Suc n))
                 (int (Suc n))"
    have keq: "k = ?k'"
      using Suc.prems(2) True lt by (simp add: loop_step add.commute)
    have "m = nat (N - int (Suc n))" using Suc.hyps(2) by simp
    moreover have "int (Suc n) \<le> N" using lt by simp
    ultimately have IH:
      "(\<forall>j. Suc n \<le> j \<and> int j < ?k' \<longrightarrow> fp_abs (orbit_fp fp_step c j) \<le> 2) \<and>
       (?k' < N \<longrightarrow> 2 < fp_abs (orbit_fp fp_step c (nat ?k')))"
      using Suc.hyps(1) [of "Suc n" ?k'] by simp
    show ?thesis
    proof (intro conjI allI impI)
      fix j assume "n \<le> j \<and> int j < k"
      then show "fp_abs (orbit_fp fp_step c j) \<le> 2"
        using IH True keq by (cases "j = n") auto
    next
      assume "k < N"
      then show "2 < fp_abs (orbit_fp fp_step c (nat k))" using IH keq by simp
    qed
  next
    case False
    then have "k = int n"
      using Suc.prems(2) by (simp add: loop_stop)
    with False show ?thesis by auto
  qed
qed

lemma calc_spec:
  assumes "0 \<le> N"
  shows "calculateMandelbrot_fp fp_abs fp_step N c =
     (if \<exists>k. int k \<le> N \<and> 2 < fp_abs (orbit_fp fp_step c k)
      then int (LEAST k. 2 < fp_abs (orbit_fp fp_step c k)) else N)"
proof -
  let ?r = "calculateMandelbrot_fp fp_abs fp_step N c"
  let ?o = "orbit_fp fp_step c"
  have r: "?r = calculateMandelbrot_loop fp_abs fp_step N c (?o 0) (int 0)"
    by (simp add: calculateMandelbrot_fp_def)
  have b: "0 \<le> ?r \<and> ?r \<le> N"
    using loop_bounds [OF assms, of fp_abs fp_step c 0] by (simp add: calculateMandelbrot_fp_def)
  have "int 0 \<le> N" using assms by simp
  from loop_orbit [OF this r]
  have o: "(\<forall>j. int j < ?r \<longrightarrow> fp_abs (?o j) \<le> 2) \<and> (?r < N \<longrightarrow> 2 < fp_abs (?o (nat ?r)))"
    by simp
  show ?thesis
  proof (cases "\<exists>k. int k \<le> N \<and> 2 < fp_abs (?o k)")
    case True
    then obtain k where k: "int k \<le> N" "2 < fp_abs (?o k)" by blast
    have rk: "?r \<le> int k"
    proof (rule ccontr)
      assume "\<not> ?r \<le> int k"
      then have "int k < ?r" by simp
      with o have "fp_abs (?o k) \<le> 2" by blast
      with k show False by simp
    qed
    have esc: "2 < fp_abs (?o (nat ?r))"
    proof (cases "?r < N")
      case True with o show ?thesis by blast
    next
      case False
      with b rk k have "?r = int k" by linarith
      with k show ?thesis by simp
    qed
    have "(LEAST k. 2 < fp_abs (?o k)) = nat ?r"
    proof (rule Least_equality)
      show "2 < fp_abs (?o (nat ?r))" by (rule esc)
    next
      fix y assume y: "2 < fp_abs (?o y)"
      show "nat ?r \<le> y"
      proof (rule ccontr)
        assume "\<not> nat ?r \<le> y"
        then have "int y < ?r" by linarith
        with o have "fp_abs (?o y) \<le> 2" by blast
        with y show False by simp
      qed
    qed
    with True b show ?thesis by simp
  next
    case False
    have "?r = N"
    proof (rule ccontr)
      assume "?r \<noteq> N"
      with b have lt: "?r < N" by simp
      with o have "2 < fp_abs (?o (nat ?r))" by blast
      moreover have "int (nat ?r) \<le> N" using b by simp
      ultimately show False using False by blast
    qed
    then show ?thesis by (simp only: False if_False)
  qed
qed

lemma orbit_zero: "fp_step 0 0 = 0 \<Longrightarrow> orbit_fp fp_step 0 k = 0"
  by (induction k) simp_all

lemma calc_zero:
  assumes "0 \<le> N" "fp_step 0 0 = 0" "fp_abs 0 \<le> 2"
  shows "calculateMandelbrot_fp fp_abs fp_step N 0 = N"
proof -
  have "\<not> (\<exists>k. int k \<le> N \<and> 2 < fp_abs (orbit_fp fp_step 0 k))"
    using assms(3) by (simp add: orbit_zero [of fp_step, OF assms(2)])
  then show ?thesis unfolding calc_spec [OF assms(1)] by (simp only: if_False)
qed

text \<open>
  Claim C10. For every complex \<open>c\<close> the loop of \<^verbatim>\<open>calculateMandelbrot\<close> ends, and
  the count it returns lies between 0 and \<open>MAX_ITERATIONS\<close>. The function is total
  (its termination is proved with the measure \<open>N - iterations\<close>), and the count that
  is returned is the number of times the body has run, since the body adds 1 to a
  counter that starts at 0: the loop runs at most \<open>MAX_ITERATIONS\<close> times. This holds
  at exact arithmetic and for every rounding of the two operations on doubles.
\<close>

theorem calculateMandelbrot_bounded:
  "(0 \<le> calculateMandelbrot MAX_ITERATIONS c \<and>
    calculateMandelbrot MAX_ITERATIONS c \<le> MAX_ITERATIONS) \<and>
   (0 \<le> calculateMandelbrot_fp fp_abs fp_step MAX_ITERATIONS c \<and>
    calculateMandelbrot_fp fp_abs fp_step MAX_ITERATIONS c \<le> MAX_ITERATIONS)"
proof -
  have n: "(0::int) \<le> MAX_ITERATIONS" by (simp add: MAX_ITERATIONS_def)
  have "0 \<le> calculateMandelbrot_fp f g MAX_ITERATIONS c \<and>
        calculateMandelbrot_fp f g MAX_ITERATIONS c \<le> MAX_ITERATIONS" for f g
    using loop_bounds [OF n, of f g c 0] by (simp add: calculateMandelbrot_fp_def)
  then show ?thesis unfolding calculateMandelbrot_def by blast
qed

text \<open>
  Claim C2. With the cap \<open>MAX_ITERATIONS\<close>, \<^verbatim>\<open>calculateMandelbrot\<close> returns the
  least \<open>k\<close> up to the cap at which the orbit of \<open>c\<close> has a magnitude above 2.0, and
  the cap when there is no such \<open>k\<close>; for \<open>c = 0\<close> it returns the cap. The orbit and
  its magnitudes are the ones the program computes, whatever the rounding of
  \<^verbatim>\<open>z * z + c\<close> and of \<^verbatim>\<open>std::abs\<close>; for \<open>c = 0\<close> the arithmetic has to give
  \<open>0 * 0 + 0 = 0\<close> and a magnitude of 0 that is at most 2, as IEEE arithmetic and
  exact arithmetic do.
\<close>

theorem calculateMandelbrot_least_escape:
  "calculateMandelbrot_fp fp_abs fp_step MAX_ITERATIONS c =
     (if \<exists>k. int k \<le> MAX_ITERATIONS \<and> 2 < fp_abs (orbit_fp fp_step c k)
      then int (LEAST k. 2 < fp_abs (orbit_fp fp_step c k)) else MAX_ITERATIONS) \<and>
   (fp_step 0 0 = 0 \<and> fp_abs 0 \<le> 2 \<longrightarrow>
      calculateMandelbrot_fp fp_abs fp_step MAX_ITERATIONS 0 = MAX_ITERATIONS)"
proof -
  have n: "(0::int) \<le> MAX_ITERATIONS" by (simp add: MAX_ITERATIONS_def)
  show ?thesis using calc_spec [OF n, of fp_abs fp_step c] calc_zero [OF n, of fp_step fp_abs]
    by blast
qed

text \<open>
  The doubles \<open>c = (-0x1.999999999999ap+0, 0x1.3333333333333p+0)\<close> have a modulus just
  above 2 that \<^verbatim>\<open>std::abs\<close> rounds to 2.0. At exact arithmetic the count is 1; with
  any arithmetic that keeps \<open>0 * 0 + c = c\<close>, gives \<open>c\<close> the magnitude 2 and the next
  term of the orbit a magnitude above 2, it is 2.
\<close>

lemma calculateMandelbrot_rounding:
  fixes c :: complex
  defines "c \<equiv> Complex (- (7205759403792794 / 4503599627370496))
                       (5404319552844595 / 4503599627370496)"
  shows "calculateMandelbrot MAX_ITERATIONS c = 1"
    and "fp_abs 0 \<le> 2 \<Longrightarrow> fp_step 0 c = c \<Longrightarrow> fp_abs c = 2 \<Longrightarrow> 2 < fp_abs (fp_step c c) \<Longrightarrow>
         calculateMandelbrot_fp fp_abs fp_step MAX_ITERATIONS c = 2"
proof -
  have "(2::real) ^ 2 < (- (7205759403792794 / 4503599627370496))\<^sup>2 +
          (5404319552844595 / 4503599627370496)\<^sup>2"
    by (simp add: power2_eq_square)
  then have "2 < sqrt ((- (7205759403792794 / 4503599627370496))\<^sup>2 +
          (5404319552844595 / 4503599627370496)\<^sup>2)"
    by (rule real_less_rsqrt)
  then have far: "\<not> (cmod c \<le> 2 \<and> (0 + 1 :: int) < MAX_ITERATIONS)"
    by (simp add: cmod_def c_def)
  have "calculateMandelbrot MAX_ITERATIONS c =
          calculateMandelbrot_loop cmod (\<lambda>z c. z * z + c) MAX_ITERATIONS c (0 * 0 + c) (0 + 1)"
    unfolding calculateMandelbrot_def calculateMandelbrot_fp_def
    by (rule loop_step) (simp_all add: MAX_ITERATIONS_def)
  also have "\<dots> = calculateMandelbrot_loop cmod (\<lambda>z c. z * z + c) MAX_ITERATIONS c c (0 + 1)"
    by simp
  also have "\<dots> = 0 + 1" by (rule loop_stop [where fp_abs = cmod, OF far])
  finally show "calculateMandelbrot MAX_ITERATIONS c = 1" by simp
next
  assume a: "fp_abs 0 \<le> 2" "fp_step 0 c = c" "fp_abs c = 2" "2 < fp_abs (fp_step c c)"
  have "calculateMandelbrot_fp fp_abs fp_step MAX_ITERATIONS c =
          calculateMandelbrot_loop fp_abs fp_step MAX_ITERATIONS c (fp_step 0 c) (0 + 1)"
    unfolding calculateMandelbrot_fp_def
    by (rule loop_step) (simp_all add: a MAX_ITERATIONS_def)
  also have "\<dots> = calculateMandelbrot_loop fp_abs fp_step MAX_ITERATIONS c (fp_step c c)
                    (0 + 1 + 1)"
    unfolding a(2) by (rule loop_step) (simp_all add: a MAX_ITERATIONS_def)
  also have "\<dots> = 0 + 1 + 1"
    by (rule loop_stop) (use a(4) in auto)
  finally show "calculateMandelbrot_fp fp_abs fp_step MAX_ITERATIONS c = 2" by simp
qed

theorem calculateMandelbrot_least_escape_witness:
  "(\<lambda>z c. z * z + c) (0::complex) 0 = 0 \<and> cmod 0 \<le> 2 \<and>
   (\<exists>k. int k \<le> MAX_ITERATIONS \<and> 2 < cmod (orbit_fp (\<lambda>z c. z * z + c) 3 k)) \<and>
   calculateMandelbrot_fp cmod (\<lambda>z c. z * z + c) MAX_ITERATIONS 3 =
     int (LEAST k. 2 < cmod (orbit_fp (\<lambda>z c. z * z + c) 3 k)) \<and>
   calculateMandelbrot_fp cmod (\<lambda>z c. z * z + c) MAX_ITERATIONS 0 = MAX_ITERATIONS"
proof -
  have h: "(\<lambda>z c. z * z + c) (0::complex) 0 = 0 \<and> cmod 0 \<le> 2" by simp
  have e: "\<exists>k. int k \<le> MAX_ITERATIONS \<and> 2 < cmod (orbit_fp (\<lambda>z c. z * z + c) 3 k)"
    by (rule exI [of _ 1]) (simp add: MAX_ITERATIONS_def)
  note t3 = calculateMandelbrot_least_escape [of cmod "\<lambda>z c. z * z + c" 3]
  note t0 = calculateMandelbrot_least_escape [of cmod "\<lambda>z c. z * z + c" 0]
  have a: "calculateMandelbrot_fp cmod (\<lambda>z c. z * z + c) MAX_ITERATIONS 3 =
     int (LEAST k. 2 < cmod (orbit_fp (\<lambda>z c. z * z + c) 3 k))"
    using t3 [THEN conjunct1] e by (simp only: if_True)
  have b: "calculateMandelbrot_fp cmod (\<lambda>z c. z * z + c) MAX_ITERATIONS 0 = MAX_ITERATIONS"
    using t0 [THEN conjunct2] h by blast
  from h e a b show ?thesis by blast
qed

section \<open>The render pass\<close>

lemma row_index: "x < W \<Longrightarrow> (y * W + x) mod W = x \<and> (y * W + x) div W = (y::nat)"
proof -
  assume x: "x < W"
  then have "W \<noteq> 0" by auto
  with x show ?thesis by simp
qed

lemma renderLine_row_nth:
  "\<forall>x\<in>set xs. x < W \<Longrightarrow> (y + 1) * W \<le> length buffer \<Longrightarrow>
   \<exists>buffer'. renderLine_row W H N st y xs buffer = Inr buffer' \<and>
     length buffer' = length buffer \<and>
     (\<forall>j<length buffer. buffer' ! j =
        (if \<exists>x\<in>set xs. j = y * W + x then pixel_color W H N st j else buffer ! j))"
proof (induction xs arbitrary: buffer)
  case Nil
  then show ?case by simp
next
  case (Cons x xs)
  let ?col = "getColor N (calculateMandelbrot N (complexFromPixel W H st (int x) (int y)))"
  let ?b1 = "buffer[y * W + x := ?col]"
  have xW: "x < W" using Cons.prems(1) by simp
  then have inb: "y * W + x < length buffer" using Cons.prems(2) by simp
  have col: "?col = pixel_color W H N st (y * W + x)"
    using row_index [OF xW, of y] by (simp add: pixel_color_def)
  have "\<forall>x\<in>set xs. x < W" using Cons.prems(1) by simp
  moreover have "(y + 1) * W \<le> length ?b1" using Cons.prems(2) by simp
  ultimately obtain b' where b': "renderLine_row W H N st y xs ?b1 = Inr b'"
      "length b' = length ?b1"
      "\<forall>j<length ?b1. b' ! j =
        (if \<exists>x\<in>set xs. j = y * W + x then pixel_color W H N st j else ?b1 ! j)"
    using Cons.IH [of ?b1] by blast
  have step: "renderLine_row W H N st y (x # xs) buffer = Inr b'"
    using inb b'(1) by (simp add: Let_def)
  have "\<forall>j<length buffer. b' ! j =
        (if \<exists>x'\<in>set (x # xs). j = y * W + x' then pixel_color W H N st j else buffer ! j)"
  proof (intro allI impI)
    fix j assume j: "j < length buffer"
    show "b' ! j = (if \<exists>x'\<in>set (x # xs). j = y * W + x' then pixel_color W H N st j else buffer ! j)"
    proof (cases "\<exists>x'\<in>set xs. j = y * W + x'")
      case True
      then show ?thesis using b'(3) j by auto
    next
      case False
      then have "b' ! j = ?b1 ! j" using b'(3) j by simp
      then show ?thesis using False j col by (cases "j = y * W + x") auto
    qed
  qed
  then show ?case using step b'(2) by simp
qed

lemma in_row_iff: "(\<exists>x\<in>set [0..<W]. j = y * W + x) \<longleftrightarrow> (y * W \<le> j \<and> j < (y + 1) * W)"
proof
  assume "\<exists>x\<in>set [0..<W]. j = y * W + x"
  then show "y * W \<le> j \<and> j < (y + 1) * W" by auto
next
  assume a: "y * W \<le> j \<and> j < (y + 1) * W"
  then have "j - y * W < W" by (simp add: less_diff_conv2 add.commute)
  moreover have "j = y * W + (j - y * W)" using a by simp
  ultimately show "\<exists>x\<in>set [0..<W]. j = y * W + x" by (metis atLeast0LessThan lessThan_iff set_upt)
qed

lemma renderLine_rows_nth:
  "\<forall>y\<in>set ys. (y + 1) * W \<le> length buffer \<Longrightarrow>
   \<exists>buffer'. renderLine_rows W H N st ys buffer = Inr buffer' \<and>
     length buffer' = length buffer \<and>
     (\<forall>j<length buffer. buffer' ! j =
        (if \<exists>y\<in>set ys. y * W \<le> j \<and> j < (y + 1) * W then pixel_color W H N st j else buffer ! j))"
proof (induction ys arbitrary: buffer)
  case Nil
  then show ?case by simp
next
  case (Cons y ys)
  have "(y + 1) * W \<le> length buffer" using Cons.prems by simp
  then obtain b1 where b1: "renderLine_row W H N st y [0..<W] buffer = Inr b1"
      "length b1 = length buffer"
      "\<forall>j<length buffer. b1 ! j =
        (if y * W \<le> j \<and> j < (y + 1) * W then pixel_color W H N st j else buffer ! j)"
    using renderLine_row_nth [of "[0..<W]" W y buffer H N st] in_row_iff [of W _ y]
    by auto
  have "\<forall>y\<in>set ys. (y + 1) * W \<le> length b1" using Cons.prems b1(2) by simp
  then obtain b' where b': "renderLine_rows W H N st ys b1 = Inr b'"
      "length b' = length b1"
      "\<forall>j<length b1. b' ! j =
        (if \<exists>y\<in>set ys. y * W \<le> j \<and> j < (y + 1) * W then pixel_color W H N st j else b1 ! j)"
    using Cons.IH [of b1] by blast
  have step: "renderLine_rows W H N st (y # ys) buffer = Inr b'"
    using b1(1) b'(1) by simp
  have "\<forall>j<length buffer. b' ! j =
        (if \<exists>y'\<in>set (y # ys). y' * W \<le> j \<and> j < (y' + 1) * W
         then pixel_color W H N st j else buffer ! j)"
    using b'(3) b1(2,3) by auto
  then show ?case using step b'(2) b1(2) by simp
qed

lemma in_rows_iff:
  "(\<exists>y\<in>set [s..<e]. y * W \<le> j \<and> j < (y + 1) * W) \<longleftrightarrow> (s * W \<le> j \<and> j < e * W)"
proof
  assume "\<exists>y\<in>set [s..<e]. y * W \<le> j \<and> j < (y + 1) * W"
  then obtain y where y: "s \<le> y" "y < e" "y * W \<le> j" "j < (y + 1) * W" by auto
  have "s * W \<le> y * W" using y(1) by simp
  moreover have "(y + 1) * W \<le> e * W" using y(2) by (intro mult_le_mono1) simp
  ultimately show "s * W \<le> j \<and> j < e * W" using y by linarith
next
  assume a: "s * W \<le> j \<and> j < e * W"
  then have W: "0 < W" by (cases W) auto
  let ?y = "j div W"
  have "?y * W \<le> j" by simp
  moreover have "j < (?y + 1) * W" using dividend_less_times_div [OF W, of j] by (simp add: mult.commute)
  moreover have "s \<le> ?y" using a W by (simp add: less_eq_div_iff_mult_less_eq)
  moreover have "?y < e" using a W by (simp add: div_less_iff_less_mult)
  ultimately have "?y \<in> set [s..<e] \<and> ?y * W \<le> j \<and> j < (?y + 1) * W" by simp
  then show "\<exists>y\<in>set [s..<e]. y * W \<le> j \<and> j < (y + 1) * W" by blast
qed

lemma renderLine_nth:
  assumes "endY * W \<le> length buffer"
  shows "\<exists>buffer'. renderLine W H N st buffer startY endY = Inr buffer' \<and>
     length buffer' = length buffer \<and>
     (\<forall>j<length buffer. buffer' ! j =
        (if startY * W \<le> j \<and> j < endY * W then pixel_color W H N st j else buffer ! j))"
proof -
  have "\<forall>y\<in>set [startY..<endY]. (y + 1) * W \<le> length buffer"
  proof
    fix y assume "y \<in> set [startY..<endY]"
    then have "y + 1 \<le> endY" by simp
    then have "(y + 1) * W \<le> endY * W" by (rule mult_le_mono1)
    with assms show "(y + 1) * W \<le> length buffer" by simp
  qed
  from renderLine_rows_nth [OF this, of H N st]
  show ?thesis unfolding renderLine_def in_rows_iff by simp
qed


lemma tile_bounds:
  assumes "i < numThreads"
  shows "tile_startY (H div numThreads) i \<le> tile_endY H numThreads (H div numThreads) i \<and>
         tile_endY H numThreads (H div numThreads) i \<le> H"
proof -
  let ?l = "H div numThreads"
  have full: "numThreads * ?l \<le> H" by simp
  have "(i + 1) * ?l \<le> numThreads * ?l"
    using assms by (intro mult_le_mono1) simp
  then have e: "(i + 1) * ?l \<le> H" using full by linarith
  have "i * ?l \<le> (i + 1) * ?l" by simp
  then show ?thesis using e by (simp add: tile_startY_def tile_endY_def)
qed

lemma tile_cover:
  assumes "1 \<le> numThreads" "y < H"
  shows "\<exists>i<numThreads. tile_startY (H div numThreads) i \<le> y \<and>
           y < tile_endY H numThreads (H div numThreads) i"
proof -
  let ?l = "H div numThreads"
  let ?last = "numThreads - 1"
  have last: "?last < numThreads" "int ?last = int numThreads - 1" using assms(1) by auto
  show ?thesis
  proof (cases "?last * ?l \<le> y")
    case True
    then have "tile_startY ?l ?last \<le> y \<and> y < tile_endY H numThreads ?l ?last"
      using assms(2) last(2) by (simp add: tile_startY_def tile_endY_def)
    with last(1) show ?thesis by blast
  next
    case False
    then have l: "0 < ?l" by (cases "?l = 0") auto
    let ?i = "y div ?l"
    have "?i * ?l \<le> y" by simp
    moreover have ylt: "y < (?i + 1) * ?l"
      using dividend_less_times_div [OF l, of y] by (simp add: mult.commute)
    moreover have ilt: "?i < ?last"
    proof (rule ccontr)
      assume "\<not> ?i < ?last"
      then have "?last \<le> ?i" by simp
      then have "?last * ?l \<le> ?i * ?l" by (rule mult_le_mono1)
      moreover have "?i * ?l \<le> y" by simp
      ultimately have "?last * ?l \<le> y" by (rule le_trans)
      with False show False by blast
    qed
    moreover have "int ?i \<noteq> int numThreads - 1" using ilt last(2) by linarith
    ultimately have "tile_startY ?l ?i \<le> y \<and> y < tile_endY H numThreads ?l ?i"
      by (simp add: tile_startY_def tile_endY_def)
    moreover have "?i < numThreads" using ilt by simp
    ultimately show ?thesis by blast
  qed
qed

lemma copy_rows_nth:
  assumes "lo \<le> hi" "hi \<le> length src" "hi \<le> length dst"
  shows "\<exists>d. copy_rows src lo hi dst = Inr d \<and> length d = length dst \<and>
           (\<forall>j<length dst. d ! j = (if lo \<le> j \<and> j < hi then src ! j else dst ! j))"
proof -
  let ?d = "take lo dst @ take (hi - lo) (drop lo src) @ drop hi dst"
  have c: "copy_rows src lo hi dst = Inr ?d" using assms by (simp add: copy_rows_def)
  have len: "length ?d = length dst" using assms by simp
  have "\<forall>j<length dst. ?d ! j = (if lo \<le> j \<and> j < hi then src ! j else dst ! j)"
  proof (intro allI impI)
    fix j assume j: "j < length dst"
    consider "j < lo" | "lo \<le> j" "j < hi" | "hi \<le> j" by linarith
    then show "?d ! j = (if lo \<le> j \<and> j < hi then src ! j else dst ! j)"
    proof cases
      case 1
      then show ?thesis using assms by (simp add: nth_append)
    next
      case 2
      then have "j - lo < hi - lo" by linarith
      then show ?thesis using 2 assms by (simp add: nth_append)
    next
      case 3
      then have n: "\<not> j < lo" "\<not> j - lo < hi - lo" "j - lo - (hi - lo) = j - hi"
        using assms(1) by linarith+
      have "?d ! j = drop hi dst ! (j - hi)"
        using n assms by (simp add: nth_append)
      then show ?thesis using 3 assms j by simp
    qed
  qed
  with c len show ?thesis by blast
qed


lemma tile_end_cells:
  assumes "i < numThreads"
  shows "tile_endY H numThreads (H div numThreads) i * W \<le> W * H"
proof -
  have "tile_endY H numThreads (H div numThreads) i \<le> H" using tile_bounds [OF assms] by simp
  then have "tile_endY H numThreads (H div numThreads) i * W \<le> H * W" by (rule mult_le_mono1)
  then show ?thesis by (simp add: mult.commute)
qed

lemma run_threads_nth:
  assumes "distinct is" "\<forall>i\<in>set is. i < numThreads" "length tbs = numThreads"
    "\<forall>i<numThreads. length (tbs ! i) = W * H"
  shows "\<exists>tbs'. run_threads W H N numThreads st (H div numThreads) is tbs = Inr tbs' \<and>
           length tbs' = numThreads \<and>
           (\<forall>i<numThreads. length (tbs' ! i) = W * H \<and>
              (i \<in> set is \<longrightarrow>
                 (\<forall>j<W * H. in_tile W H numThreads i j \<longrightarrow> tbs' ! i ! j = pixel_color W H N st j)) \<and>
              (i \<notin> set is \<longrightarrow> tbs' ! i = tbs ! i))"
  using assms
proof (induction "is" arbitrary: tbs)
  case Nil
  then show ?case by simp
next
  case (Cons i "is")
  let ?s = "tile_startY (H div numThreads) i"
  let ?e = "tile_endY H numThreads (H div numThreads) i"
  have i: "i < numThreads" using Cons.prems(2) by simp
  then have len_i: "length (tbs ! i) = W * H" using Cons.prems(4) by simp
  have "?e * W \<le> length (tbs ! i)" using tile_end_cells [OF i, of H W] len_i by simp
  then obtain b where b: "renderLine W H N st (tbs ! i) ?s ?e = Inr b"
      "length b = length (tbs ! i)"
      "\<forall>j<length (tbs ! i). b ! j =
         (if ?s * W \<le> j \<and> j < ?e * W then pixel_color W H N st j else tbs ! i ! j)"
    using renderLine_nth [of ?e W "tbs ! i" H N st ?s] by blast
  let ?tbs1 = "tbs[i := b]"
  have p1: "distinct is" "\<forall>i\<in>set is. i < numThreads" "length ?tbs1 = numThreads"
    using Cons.prems by simp_all
  have p2: "\<forall>k<numThreads. length (?tbs1 ! k) = W * H"
    using Cons.prems(3,4) b(2) len_i i by (auto simp: nth_list_update)
  obtain tbs' where t: "run_threads W H N numThreads st (H div numThreads) is ?tbs1 = Inr tbs'"
      "length tbs' = numThreads"
      "\<forall>k<numThreads. length (tbs' ! k) = W * H \<and>
          (k \<in> set is \<longrightarrow>
             (\<forall>j<W * H. in_tile W H numThreads k j \<longrightarrow> tbs' ! k ! j = pixel_color W H N st j)) \<and>
          (k \<notin> set is \<longrightarrow> tbs' ! k = ?tbs1 ! k)"
    using Cons.IH [OF p1 p2] by blast
  have step: "run_threads W H N numThreads st (H div numThreads) (i # is) tbs = Inr tbs'"
    using i Cons.prems(3) b(1) t(1) by (simp add: Let_def)
  have inotin: "i \<notin> set is" using Cons.prems(1) by simp
  have "\<forall>k<numThreads. length (tbs' ! k) = W * H \<and>
          (k \<in> set (i # is) \<longrightarrow>
             (\<forall>j<W * H. in_tile W H numThreads k j \<longrightarrow> tbs' ! k ! j = pixel_color W H N st j)) \<and>
          (k \<notin> set (i # is) \<longrightarrow> tbs' ! k = tbs ! k)"
  proof (intro allI impI)
    fix k assume k: "k < numThreads"
    show "length (tbs' ! k) = W * H \<and>
          (k \<in> set (i # is) \<longrightarrow>
             (\<forall>j<W * H. in_tile W H numThreads k j \<longrightarrow> tbs' ! k ! j = pixel_color W H N st j)) \<and>
          (k \<notin> set (i # is) \<longrightarrow> tbs' ! k = tbs ! k)"
    proof (cases "k = i")
      case True
      have "tbs' ! i = b" using t(3) i inotin Cons.prems(3) by simp
      then show ?thesis using True b(2,3) len_i inotin by (simp add: in_tile_def)
    next
      case False
      then show ?thesis using t(3) k by simp
    qed
  qed
  with step t(2) show ?case by blast
qed

lemma combine_buffers_nth:
  assumes "\<forall>i\<in>set is. i < numThreads" "length tbs = numThreads"
    "\<forall>i<numThreads. length (tbs ! i) = W * H"
    "length tmp = W * H"
    "\<forall>i\<in>set is. \<forall>j<W * H. in_tile W H numThreads i j \<longrightarrow> tbs ! i ! j = f j"
  shows "\<exists>tmp'. combine_buffers W H numThreads (H div numThreads) is tbs tmp = Inr tmp' \<and>
           length tmp' = W * H \<and>
           (\<forall>j<W * H. tmp' ! j =
              (if \<exists>i\<in>set is. in_tile W H numThreads i j then f j else tmp ! j))"
  using assms
proof (induction "is" arbitrary: tmp)
  case Nil
  then show ?case by simp
next
  case (Cons i "is")
  let ?s = "tile_startY (H div numThreads) i"
  let ?e = "tile_endY H numThreads (H div numThreads) i"
  have i: "i < numThreads" using Cons.prems(1) by simp
  have se: "?s * W \<le> ?e * W" using tile_bounds [OF i, of H] by (simp add: mult_le_mono1)
  have e: "?e * W \<le> W * H" by (rule tile_end_cells [OF i])
  obtain t1 where t1: "copy_rows (tbs ! i) (?s * W) (?e * W) tmp = Inr t1"
      "length t1 = length tmp"
      "\<forall>j<length tmp. t1 ! j = (if ?s * W \<le> j \<and> j < ?e * W then tbs ! i ! j else tmp ! j)"
    using copy_rows_nth [of "?s * W" "?e * W" "tbs ! i" tmp] se e Cons.prems(3,4) i by auto
  have t1f: "\<forall>j<W * H. t1 ! j = (if in_tile W H numThreads i j then f j else tmp ! j)"
    using t1(3) Cons.prems(4,5) by (simp add: in_tile_def)
  have p: "\<forall>i\<in>set is. i < numThreads" "length t1 = W * H"
    "\<forall>i\<in>set is. \<forall>j<W * H. in_tile W H numThreads i j \<longrightarrow> tbs ! i ! j = f j"
    using Cons.prems t1(2) by simp_all
  obtain tmp' where t: "combine_buffers W H numThreads (H div numThreads) is tbs t1 = Inr tmp'"
      "length tmp' = W * H"
      "\<forall>j<W * H. tmp' ! j =
              (if \<exists>i\<in>set is. in_tile W H numThreads i j then f j else t1 ! j)"
    using Cons.IH [OF p(1) Cons.prems(2,3) p(2,3)] by blast
  have step: "combine_buffers W H numThreads (H div numThreads) (i # is) tbs tmp = Inr tmp'"
    using i Cons.prems(2) t1(1) t(1) by (simp add: Let_def)
  have "\<forall>j<W * H. tmp' ! j =
              (if \<exists>k\<in>set (i # is). in_tile W H numThreads k j then f j else tmp ! j)"
    using t(3) t1f by auto
  with step t(2) show ?case by blast
qed

lemma in_some_tile:
  assumes "1 \<le> numThreads" "j < W * H"
  shows "\<exists>i\<in>set [0..<numThreads]. in_tile W H numThreads i j"
proof -
  have W: "0 < W" using assms(2) by (cases W) auto
  let ?y = "j div W"
  have y: "?y < H" using assms(2) W by (simp add: div_less_iff_less_mult mult.commute)
  obtain i where i: "i < numThreads" "tile_startY (H div numThreads) i \<le> ?y"
      "?y < tile_endY H numThreads (H div numThreads) i"
    using tile_cover [OF assms(1) y] by blast
  have "tile_startY (H div numThreads) i * W \<le> ?y * W" using i(2) by (rule mult_le_mono1)
  moreover have "?y * W \<le> j" by simp
  moreover have "j < (?y + 1) * W"
    using dividend_less_times_div [OF W, of j] by (simp add: mult.commute)
  moreover have "(?y + 1) * W \<le> tile_endY H numThreads (H div numThreads) i * W"
    using i(3) by (intro mult_le_mono1) simp
  ultimately have "in_tile W H numThreads i j" unfolding in_tile_def by linarith
  with i(1) show ?thesis by auto
qed

lemma renderMandelbrot_eq:
  assumes "1 \<le> numThreads" "length (tempPixels st) = W * H"
  shows "renderMandelbrot W H N numThreads st =
           Inr (st\<lparr>pixels := frame W H N st, tempPixels := pixels st,
                    presented := frame W H N st # presented st\<rparr>)"
proof -
  let ?tbs = "replicate numThreads (replicate (W * H) (Inr 0 :: pixel))"
  have d: "distinct [0..<numThreads]" "\<forall>i\<in>set [0..<numThreads]. i < numThreads"
    "length ?tbs = numThreads" "\<forall>i<numThreads. length (?tbs ! i) = W * H"
    by simp_all
  obtain tbs' where t: "run_threads W H N numThreads st (H div numThreads) [0..<numThreads] ?tbs = Inr tbs'"
      "length tbs' = numThreads"
      "\<forall>i<numThreads. length (tbs' ! i) = W * H \<and>
          (i \<in> set [0..<numThreads] \<longrightarrow>
             (\<forall>j<W * H. in_tile W H numThreads i j \<longrightarrow> tbs' ! i ! j = pixel_color W H N st j)) \<and>
          (i \<notin> set [0..<numThreads] \<longrightarrow> tbs' ! i = ?tbs ! i)"
    using run_threads_nth [OF d, of N st] by blast
  have c: "\<forall>i<numThreads. length (tbs' ! i) = W * H"
    "\<forall>i\<in>set [0..<numThreads]. \<forall>j<W * H. in_tile W H numThreads i j \<longrightarrow>
        tbs' ! i ! j = pixel_color W H N st j"
    using t(3) by auto
  obtain tmp where m: "combine_buffers W H numThreads (H div numThreads) [0..<numThreads] tbs'
        (tempPixels st) = Inr tmp" "length tmp = W * H"
      "\<forall>j<W * H. tmp ! j =
         (if \<exists>i\<in>set [0..<numThreads]. in_tile W H numThreads i j
          then pixel_color W H N st j else tempPixels st ! j)"
    using combine_buffers_nth [OF d(2) t(2) c(1) assms(2) c(2)] by blast
  have "tmp = frame W H N st"
  proof (rule nth_equalityI)
    show "length tmp = length (frame W H N st)" using m(2) by (simp add: frame_def)
  next
    fix j assume "j < length tmp"
    then have j: "j < W * H" using m(2) by simp
    then have "tmp ! j = pixel_color W H N st j"
      using m(3) in_some_tile [OF assms(1) j] by simp
    then show "tmp ! j = frame W H N st ! j" using j by (simp add: frame_def)
  qed
  then show ?thesis
    using assms(1) t(1) m(1) by (simp add: renderMandelbrot_def Let_def)
qed

lemma tile_unique:
  assumes "i < numThreads" "k < numThreads" "i < k"
    "tile_startY (H div numThreads) k \<le> y"
  shows "\<not> y < tile_endY H numThreads (H div numThreads) i"
proof -
  let ?l = "H div numThreads"
  have "int i \<noteq> int numThreads - 1" using assms(2,3) by linarith
  then have e: "tile_endY H numThreads ?l i = (i + 1) * ?l" by (simp add: tile_endY_def)
  have "(i + 1) * ?l \<le> k * ?l" using assms(3) by (intro mult_le_mono1) simp
  then show ?thesis using e assms(4) by (simp add: tile_startY_def)
qed

text \<open>
  Claim C4. For every height \<open>H\<close> and every number of threads from 1 on (so for every
  one from 1 to \<open>H\<close>), the tiles of a pass are contiguous, each but the last has
  \<open>H div numThreads\<close> rows, the first starts at row 0, the last ends at row \<open>H\<close>, and
  every row of \<open>[0, H)\<close> belongs to exactly one tile.
\<close>

theorem tiles_partition_rows:
  assumes "1 \<le> numThreads"
  shows "(\<forall>i<numThreads. tile_startY (H div numThreads) i = i * (H div numThreads) \<and>
            tile_startY (H div numThreads) i \<le> tile_endY H numThreads (H div numThreads) i \<and>
            tile_endY H numThreads (H div numThreads) i \<le> H) \<and>
         (\<forall>i. i + 1 < numThreads \<longrightarrow>
            tile_endY H numThreads (H div numThreads) i =
              tile_startY (H div numThreads) i + H div numThreads \<and>
            tile_startY (H div numThreads) (i + 1) =
              tile_endY H numThreads (H div numThreads) i) \<and>
         tile_startY (H div numThreads) 0 = 0 \<and>
         tile_endY H numThreads (H div numThreads) (numThreads - 1) = H \<and>
         (\<forall>y<H. \<exists>!i. i < numThreads \<and> tile_startY (H div numThreads) i \<le> y \<and>
                      y < tile_endY H numThreads (H div numThreads) i)"
proof (intro conjI allI impI)
  fix i assume "i < numThreads"
  then show "tile_startY (H div numThreads) i = i * (H div numThreads)"
    "tile_startY (H div numThreads) i \<le> tile_endY H numThreads (H div numThreads) i"
    "tile_endY H numThreads (H div numThreads) i \<le> H"
    using tile_bounds [of i numThreads H] by (simp_all add: tile_startY_def)
next
  fix i assume i: "i + 1 < numThreads"
  then have "int i \<noteq> int numThreads - 1" by linarith
  then show "tile_endY H numThreads (H div numThreads) i =
              tile_startY (H div numThreads) i + H div numThreads"
    "tile_startY (H div numThreads) (i + 1) = tile_endY H numThreads (H div numThreads) i"
    by (simp_all add: tile_startY_def tile_endY_def)
next
  show "tile_startY (H div numThreads) 0 = 0" by (simp add: tile_startY_def)
next
  have "int (numThreads - 1) = int numThreads - 1" using assms by simp
  then show "tile_endY H numThreads (H div numThreads) (numThreads - 1) = H"
    by (simp add: tile_endY_def)
next
  fix y assume y: "y < H"
  obtain i where i: "i < numThreads" "tile_startY (H div numThreads) i \<le> y"
      "y < tile_endY H numThreads (H div numThreads) i"
    using tile_cover [OF assms y] by blast
  show "\<exists>!i. i < numThreads \<and> tile_startY (H div numThreads) i \<le> y \<and>
                      y < tile_endY H numThreads (H div numThreads) i"
  proof (rule ex1I [of _ i])
    show "i < numThreads \<and> tile_startY (H div numThreads) i \<le> y \<and>
                      y < tile_endY H numThreads (H div numThreads) i" using i by simp
  next
    fix k assume k: "k < numThreads \<and> tile_startY (H div numThreads) k \<le> y \<and>
                      y < tile_endY H numThreads (H div numThreads) k"
    show "k = i"
    proof (rule ccontr)
      assume "k \<noteq> i"
      then consider "i < k" | "k < i" by linarith
      then show False
      proof cases
        case 1
        then show False using tile_unique [of i numThreads k H y] i k by simp
      next
        case 2
        then show False using tile_unique [of k numThreads i H y] i k by simp
      qed
    qed
  qed
qed

theorem tiles_partition_rows_witness:
  "(1::nat) \<le> 4 \<and>
   tile_startY (10 div 4) 3 = 6 \<and>
   tile_endY 10 4 (10 div 4) (4 - 1) = 10 \<and>
   (\<exists>i. i < 4 \<and> tile_startY (10 div 4) i \<le> 7 \<and> 7 < tile_endY 10 4 (10 div 4) i)"
proof -
  have h: "(1::nat) \<le> 4" by simp
  note t = tiles_partition_rows [OF h, of 10]
  have a: "tile_startY (10 div 4) 3 = 6" using t by simp
  have b: "tile_endY 10 4 (10 div 4) (4 - 1) = 10" using t by blast
  have "\<exists>!i. i < 4 \<and> tile_startY (10 div 4) i \<le> 7 \<and> 7 < tile_endY 10 4 (10 div 4) i"
    using t by simp
  then have c: "\<exists>i. i < 4 \<and> tile_startY (10 div 4) i \<le> 7 \<and> 7 < tile_endY 10 4 (10 div 4) i"
    by (rule ex1_implies_ex)
  from h a b c show ?thesis by blast
qed

text \<open>
  Claim C3. A render pass with at least one thread, on buffers of the size the
  constructor gives them, completes, and the one buffer it hands to the display is
  the new \<open>pixels\<close>, which holds at every index the result of the coordinate
  mapping, \<^verbatim>\<open>calculateMandelbrot\<close> and \<^verbatim>\<open>getColor\<close> for that pixel under the
  view the pass started with; the pass does not change the view.
\<close>

theorem renderMandelbrot_publishes_full_frame:
  assumes "1 \<le> numThreads" "length (tempPixels st) = W * H"
  shows "\<exists>st'. renderMandelbrot W H N numThreads st = Inr st' \<and>
           presented st' = pixels st' # presented st \<and>
           length (pixels st') = W * H \<and>
           (\<forall>i<W * H. pixels st' ! i =
              getColor N (calculateMandelbrot N
                (complexFromPixel W H st (int (i mod W)) (int (i div W))))) \<and>
           centerX st' = centerX st \<and> centerY st' = centerY st \<and> zoom st' = zoom st"
proof -
  have "\<forall>i<W * H. frame W H N st ! i =
          getColor N (calculateMandelbrot N
            (complexFromPixel W H st (int (i mod W)) (int (i div W))))"
    by (simp add: frame_def pixel_color_def)
  moreover have "length (frame W H N st) = W * H" by (simp add: frame_def)
  ultimately show ?thesis
    using renderMandelbrot_eq [OF assms, of N] by simp
qed

theorem renderMandelbrot_publishes_full_frame_witness:
  "(1::nat) \<le> 8 \<and>
   length (tempPixels (new_explorer WINDOW_WIDTH WINDOW_HEIGHT)) = WINDOW_WIDTH * WINDOW_HEIGHT \<and>
   (\<exists>st'. renderMandelbrot WINDOW_WIDTH WINDOW_HEIGHT MAX_ITERATIONS 8
             (new_explorer WINDOW_WIDTH WINDOW_HEIGHT) = Inr st' \<and>
           presented st' = [pixels st'] \<and>
           length (pixels st') = WINDOW_WIDTH * WINDOW_HEIGHT)"
proof -
  have h: "(1::nat) \<le> 8"
    "length (tempPixels (new_explorer WINDOW_WIDTH WINDOW_HEIGHT)) = WINDOW_WIDTH * WINDOW_HEIGHT"
    by (simp_all add: new_explorer_def)
  have "presented (new_explorer WINDOW_WIDTH WINDOW_HEIGHT) = []"
    by (simp add: new_explorer_def)
  then show ?thesis
    using h renderMandelbrot_publishes_full_frame [OF h, of MAX_ITERATIONS] by auto
qed

section \<open>The colour mapper\<close>

lemma byte_bit: "r = take_bit 8 r \<Longrightarrow> bit r n \<Longrightarrow> n < 8" for r :: "32 word"
  by (metis bit_take_bit_iff)

lemma byte_word:
  assumes "0 \<le> k" "k \<le> 255"
  shows "(word_of_int k :: 32 word) = take_bit 8 (word_of_int k)"
proof -
  have "take_bit 8 k = k" using assms by (simp add: take_bit_int_eq_self)
  then show ?thesis by (simp add: take_bit_eq_mask and_mask_wi)
qed

lemma pack_rgb_bytes:
  fixes r g b :: "32 word"
  assumes "r = take_bit 8 r" "g = take_bit 8 g" "b = take_bit 8 b"
  shows "drop_bit 24 (pack_rgb r g b) = 0"
    and "drop_bit 16 (pack_rgb r g b) = r"
    and "take_bit 8 (drop_bit 8 (pack_rgb r g b)) = g"
    and "take_bit 8 (pack_rgb r g b) = b"
proof -
  have hr: "bit r n \<Longrightarrow> n < 8" for n using assms(1) by (rule byte_bit)
  have hg: "bit g n \<Longrightarrow> n < 8" for n using assms(2) by (rule byte_bit)
  have hb: "bit b n \<Longrightarrow> n < 8" for n using assms(3) by (rule byte_bit)
  show "drop_bit 24 (pack_rgb r g b) = 0"
    by (rule bit_word_eqI) (auto simp: pack_rgb_def bit_simps dest: hr hg hb)
  show "drop_bit 16 (pack_rgb r g b) = r"
    by (rule bit_word_eqI) (auto simp: pack_rgb_def bit_simps dest: hr hg hb bit_imp_le_length)
  show "take_bit 8 (drop_bit 8 (pack_rgb r g b)) = g"
    by (rule bit_word_eqI) (auto simp: pack_rgb_def bit_simps dest: hr hg hb bit_imp_le_length)
  show "take_bit 8 (pack_rgb r g b) = b"
    by (rule bit_word_eqI) (auto simp: pack_rgb_def bit_simps dest: hr hg hb bit_imp_le_length)
qed

lemma channel_byte_range: "0 \<le> channel_byte hue offset \<and> channel_byte hue offset \<le> 255"
proof -
  let ?s = "\<bar>sin (2 * pi * (hue + offset))\<bar>"
  have "?s \<le> 1" by (rule abs_sin_le_one)
  then have "?s * 255 \<le> 255" by simp
  then have "\<lfloor>?s * 255\<rfloor> \<le> \<lfloor>255 :: real\<rfloor>" by (rule floor_mono)
  then have "\<lfloor>?s * 255\<rfloor> \<le> 255" by simp
  moreover have "0 \<le> \<lfloor>?s * 255\<rfloor>" by simp
  ultimately show ?thesis by (simp add: channel_byte_def)
qed

lemma to_uint32_channel:
  "to_uint32 (\<bar>sin (2 * pi * (hue + offset))\<bar> * 255) = Inr (word_of_int (channel_byte hue offset))"
proof -
  let ?d = "\<bar>sin (2 * pi * (hue + offset))\<bar> * 255"
  have d: "0 \<le> ?d" by simp
  then have t: "trunc ?d = channel_byte hue offset" by (simp add: trunc_def channel_byte_def)
  have "0 \<le> channel_byte hue offset \<and> channel_byte hue offset < 2 ^ 32"
    using channel_byte_range [of hue offset] by simp
  then show ?thesis unfolding to_uint32_def t by simp
qed

lemma getColor_escaped:
  assumes "2 \<le> iterations" "iterations \<noteq> N"
  shows "getColor N iterations =
           Inr (pack_rgb (word_of_int (channel_byte (hue_of iterations) 0))
                         (word_of_int (channel_byte (hue_of iterations) (1 / 3)))
                         (word_of_int (channel_byte (hue_of iterations) (2 / 3))))"
proof -
  have pos: "0 < real_of_int \<bar>iterations\<bar>" using assms(1) by simp
  then have l1: "log2 (real_of_int \<bar>iterations\<bar>) = Inr (log 2 (real_of_int \<bar>iterations\<bar>))"
    by (simp add: log2_def)
  have "2 \<le> real_of_int \<bar>iterations\<bar>" using assms(1) by simp
  then have "log 2 2 \<le> log 2 (real_of_int \<bar>iterations\<bar>)" by (subst log_le_cancel_iff) simp_all
  then have lpos: "0 < log 2 (real_of_int \<bar>iterations\<bar>)" by simp
  then have l2: "log2 (log 2 (real_of_int \<bar>iterations\<bar>)) =
      Inr (log 2 (log 2 (real_of_int \<bar>iterations\<bar>)))"
    by (simp add: log2_def)
  have "getColor N iterations =
           Inr (pack_rgb (word_of_int (channel_byte (hue_of iterations) (0 / 3)))
                         (word_of_int (channel_byte (hue_of iterations) (1 / 3)))
                         (word_of_int (channel_byte (hue_of iterations) (2 / 3))))"
    by (simp only: getColor_def assms(2) if_False l1 l2 sum.case Let_def
          hue_of_def [symmetric] to_uint32_channel)
  then show ?thesis by simp
qed

lemma channel_word_byte:
  "(word_of_int \<lfloor>\<bar>sin (2 * pi * (hue + offset))\<bar> * 255\<rfloor> :: 32 word) =
   take_bit 8 (word_of_int \<lfloor>\<bar>sin (2 * pi * (hue + offset))\<bar> * 255\<rfloor>)"
proof -
  have "0 \<le> channel_byte hue offset" "channel_byte hue offset \<le> 255"
    using channel_byte_range [of hue offset] by blast+
  then show ?thesis unfolding channel_byte_def by (rule byte_word)
qed

text \<open>
  Claim C1, as amended. For every escaped point whose iteration count is at least 2
  (and below the cap), \<^verbatim>\<open>getColor\<close> returns a colour computed from the iteration
  count alone, the function having no other argument: the smooth value is
  \<open>iterations + 1 - log2(log2(iterations))\<close>, the hue is \<open>fmod(smooth / 32, 1.0)\<close>,
  the red, green and blue channels are \<open>|sin(2\<pi>(hue + offset))|\<close> for the offsets 0,
  1/3 and 2/3, each times 255 and truncated to a byte; the three bytes are packed
  into bits 16 to 23, 8 to 15 and 0 to 7 of the result, whose upper byte is zero.
\<close>

theorem getColor_smooth_from_iterations:
  assumes "2 \<le> iterations" "iterations < N"
  shows "\<exists>w. getColor N iterations = Inr w \<and>
           hue_of iterations =
             fmod ((real_of_int iterations + 1 - log 2 (log 2 (real_of_int iterations))) / 32) 1 \<and>
           w = pack_rgb (word_of_int \<lfloor>\<bar>sin (2 * pi * (hue_of iterations + 0))\<bar> * 255\<rfloor>)
                        (word_of_int \<lfloor>\<bar>sin (2 * pi * (hue_of iterations + 1 / 3))\<bar> * 255\<rfloor>)
                        (word_of_int \<lfloor>\<bar>sin (2 * pi * (hue_of iterations + 2 / 3))\<bar> * 255\<rfloor>) \<and>
           drop_bit 24 w = 0 \<and>
           drop_bit 16 w = word_of_int \<lfloor>\<bar>sin (2 * pi * (hue_of iterations + 0))\<bar> * 255\<rfloor> \<and>
           take_bit 8 (drop_bit 8 w) =
             word_of_int \<lfloor>\<bar>sin (2 * pi * (hue_of iterations + 1 / 3))\<bar> * 255\<rfloor> \<and>
           take_bit 8 w = word_of_int \<lfloor>\<bar>sin (2 * pi * (hue_of iterations + 2 / 3))\<bar> * 255\<rfloor>"
proof -
  let ?h = "hue_of iterations"
  let ?r = "word_of_int \<lfloor>\<bar>sin (2 * pi * (?h + 0))\<bar> * 255\<rfloor> :: 32 word"
  let ?g = "word_of_int \<lfloor>\<bar>sin (2 * pi * (?h + 1 / 3))\<bar> * 255\<rfloor> :: 32 word"
  let ?b = "word_of_int \<lfloor>\<bar>sin (2 * pi * (?h + 2 / 3))\<bar> * 255\<rfloor> :: 32 word"
  have ne: "iterations \<noteq> N" using assms(2) by simp
  have g: "getColor N iterations = Inr (pack_rgb ?r ?g ?b)"
    using getColor_escaped [OF assms(1) ne] unfolding channel_byte_def .
  have bytes: "?r = take_bit 8 ?r" "?g = take_bit 8 ?g" "?b = take_bit 8 ?b"
    by (rule channel_word_byte)+
  have "\<bar>iterations\<bar> = iterations" using assms(1) by simp
  then have h: "?h = fmod ((real_of_int iterations + 1 - log 2 (log 2 (real_of_int iterations))) / 32) 1"
    by (simp add: hue_of_def)
  show ?thesis
    using g h refl [of "pack_rgb ?r ?g ?b"] pack_rgb_bytes [OF bytes]
    by (intro exI [of _ "pack_rgb ?r ?g ?b"] conjI) assumption+
qed

theorem getColor_smooth_from_iterations_witness:
  "(2::int) \<le> 16 \<and> (16::int) < MAX_ITERATIONS \<and>
   (\<exists>w. getColor MAX_ITERATIONS 16 = Inr w \<and> drop_bit 24 w = 0)"
proof -
  have h: "(2::int) \<le> 16" "(16::int) < MAX_ITERATIONS" by (simp_all add: MAX_ITERATIONS_def)
  from getColor_smooth_from_iterations [OF h]
  obtain w where "getColor MAX_ITERATIONS 16 = Inr w" "drop_bit 24 w = 0" by blast
  with h show ?thesis by blast
qed

text \<open>
  The claim as the specification states it takes the smooth value from the escaped
  magnitude. At the iteration count 16 and the magnitude 4 that colour has the hue
  1/2 and so a red byte of 0, while \<^verbatim>\<open>getColor\<close> computes the hue 15/32 and a red
  byte of at least 1.
\<close>

lemma log2_16: "log 2 16 = (4::real)"
proof -
  have "log 2 (2 ^ 4) = (4::real)" by (subst log_nat_power) simp_all
  then show ?thesis by simp
qed

lemma log2_4: "log 2 4 = (2::real)"
proof -
  have "log 2 (2 ^ 2) = (2::real)" by (subst log_nat_power) simp_all
  then show ?thesis by simp
qed

lemma sin_pi16: "1 / 8 \<le> sin (pi / 16)"
proof -
  have c: "0 \<le> sin x \<Longrightarrow> sin (2 * x) \<le> 2 * sin x" for x :: real
  proof -
    assume "0 \<le> sin x"
    then have "sin x * cos x \<le> sin x * 1" by (intro mult_left_mono) simp_all
    then show ?thesis by (simp add: sin_double)
  qed
  have p16: "0 \<le> sin (pi / 16)" by (intro sin_ge_zero) (simp_all add: field_simps)
  have p8: "0 \<le> sin (pi / 8)" by (intro sin_ge_zero) (simp_all add: field_simps)
  have "sin (pi / 4) \<le> 2 * sin (pi / 8)" using c [OF p8] by simp
  moreover have "sin (pi / 8) \<le> 2 * sin (pi / 16)" using c [OF p16] by simp
  moreover have "1 / 2 \<le> sin (pi / 4)"
  proof -
    have "1 \<le> sqrt 2" by simp
    then show ?thesis by (simp add: sin_45)
  qed
  ultimately show ?thesis by linarith
qed

lemma fmod_small: "0 \<le> x \<Longrightarrow> x < 1 \<Longrightarrow> fmod x 1 = x"
  by (simp add: fmod_def trunc_def floor_eq_iff)

lemma hue_16: "hue_of 16 = 15 / 32"
proof -
  have "log 2 (log 2 (real_of_int \<bar>16\<bar>)) = 2" by (simp add: log2_16 log2_4)
  then have "hue_of 16 = fmod (15 / 32) 1" unfolding hue_of_def by simp
  then show ?thesis by (simp add: fmod_small)
qed

lemma word_byte_nonzero:
  assumes "1 \<le> k" "k \<le> 255"
  shows "(word_of_int k :: 32 word) \<noteq> 0"
proof
  assume "(word_of_int k :: 32 word) = 0"
  then have "2 ^ 32 dvd k" by (simp add: word_of_int_eq_0_iff)
  moreover have "0 < k" "k < 2 ^ 32" using assms by simp_all
  ultimately show False using zdvd_not_zless by blast
qed

lemma spec_hue_16_4: "fmod ((real_of_int 16 + 1 - log 2 (log 2 4)) / 32) 1 = 1 / 2"
proof -
  have "log 2 (log 2 4) = (1::real)" by (simp add: log2_4)
  then show ?thesis by (simp add: fmod_small)
qed

lemma red_at_15_32: "1 \<le> \<lfloor>\<bar>sin (2 * pi * (15 / 32 + 0))\<bar> * 255\<rfloor>"
proof -
  have "sin (2 * pi * (15 / 32 + 0)) = sin (pi - pi / 16)" by (simp add: field_simps)
  also have "\<dots> = sin (pi / 16)" by (rule sin_pi_minus)
  finally have "1 / 8 \<le> sin (2 * pi * (15 / 32 + 0))" using sin_pi16 by simp
  then have "1 \<le> \<bar>sin (2 * pi * (15 / 32 + 0))\<bar> * 255" by linarith
  then show ?thesis by (simp only: le_floor_iff of_int_1)
qed

theorem getColor_magnitude_counterexample:
  "getColor MAX_ITERATIONS 16 \<noteq> Inr (spec_getColor MAX_ITERATIONS 16 4)"
proof
  assume eq: "getColor MAX_ITERATIONS 16 = Inr (spec_getColor MAX_ITERATIONS 16 4)"
  let ?r = "word_of_int \<lfloor>\<bar>sin (2 * pi * (15 / 32 + 0))\<bar> * 255\<rfloor> :: 32 word"
  let ?g = "word_of_int \<lfloor>\<bar>sin (2 * pi * (15 / 32 + 1 / 3))\<bar> * 255\<rfloor> :: 32 word"
  let ?b = "word_of_int \<lfloor>\<bar>sin (2 * pi * (15 / 32 + 2 / 3))\<bar> * 255\<rfloor> :: 32 word"
  let ?r' = "word_of_int \<lfloor>\<bar>sin (2 * pi * (1 / 2 + 0))\<bar> * 255\<rfloor> :: 32 word"
  let ?g' = "word_of_int \<lfloor>\<bar>sin (2 * pi * (1 / 2 + 1 / 3))\<bar> * 255\<rfloor> :: 32 word"
  let ?b' = "word_of_int \<lfloor>\<bar>sin (2 * pi * (1 / 2 + 2 / 3))\<bar> * 255\<rfloor> :: 32 word"
  have ne: "(16::int) \<noteq> MAX_ITERATIONS" "(2::int) \<le> 16" by (simp_all add: MAX_ITERATIONS_def)
  have code: "getColor MAX_ITERATIONS 16 = Inr (pack_rgb ?r ?g ?b)"
    using getColor_escaped [OF ne(2,1)] unfolding channel_byte_def hue_16 .
  have spec: "spec_getColor MAX_ITERATIONS 16 4 = pack_rgb ?r' ?g' ?b'"
    by (simp only: spec_getColor_def ne if_False Let_def spec_hue_16_4)
  have cb: "?r = take_bit 8 ?r" "?g = take_bit 8 ?g" "?b = take_bit 8 ?b"
    by (rule channel_word_byte)+
  have cb': "?r' = take_bit 8 ?r'" "?g' = take_bit 8 ?g'" "?b' = take_bit 8 ?b'"
    by (rule channel_word_byte)+
  from eq have "pack_rgb ?r ?g ?b = pack_rgb ?r' ?g' ?b'"
    unfolding code spec by (simp only: sum.inject)
  then have "drop_bit 16 (pack_rgb ?r ?g ?b) = drop_bit 16 (pack_rgb ?r' ?g' ?b')"
    by (rule arg_cong)
  then have rr: "?r = ?r'"
    unfolding pack_rgb_bytes(2) [OF cb] pack_rgb_bytes(2) [OF cb'] .
  have "\<lfloor>\<bar>sin (2 * pi * (1 / 2 + 0))\<bar> * 255\<rfloor> = (0::int)" by simp
  then have r0: "?r' = 0" by (simp only: word_of_int_0)
  have "\<lfloor>\<bar>sin (2 * pi * (15 / 32 + 0))\<bar> * 255\<rfloor> \<le> (255::int)"
    using channel_byte_range [of "15 / 32" 0] unfolding channel_byte_def by blast
  then have "?r \<noteq> 0" by (rule word_byte_nonzero [OF red_at_15_32])
  with rr r0 show False by (simp only:)
qed

text \<open>
  Claim C6 asks that iteration counts 0 and 1 never reach the logarithms with an
  argument that is not positive. \<^verbatim>\<open>getColor\<close> special-cases the cap only: at the
  count 1 the inner logarithm is 0 and the outer one is taken at 0, at the count 0 the
  inner one is taken at 0. The count 1 is what \<^verbatim>\<open>calculateMandelbrot\<close> returns for
  the pixel (0, 0) of the initial view, \<open>c = -2.5 - 1.5i\<close>, so the first frame holds
  the error.
\<close>

theorem getColor_log_of_zero:
  "getColor MAX_ITERATIONS 1 = Inl (Log2Domain 0) \<and>
   getColor MAX_ITERATIONS 0 = Inl (Log2Domain 0) \<and>
   complexFromPixel WINDOW_WIDTH WINDOW_HEIGHT (new_explorer WINDOW_WIDTH WINDOW_HEIGHT) 0 0 =
     Complex (- 5 / 2) (- 3 / 2) \<and>
   calculateMandelbrot MAX_ITERATIONS (Complex (- 5 / 2) (- 3 / 2)) = 1 \<and>
   pixel_color WINDOW_WIDTH WINDOW_HEIGHT MAX_ITERATIONS
     (new_explorer WINDOW_WIDTH WINDOW_HEIGHT) 0 = Inl (Log2Domain 0)"
proof -
  have g1: "getColor MAX_ITERATIONS 1 = Inl (Log2Domain 0)"
    by (simp add: getColor_def log2_def MAX_ITERATIONS_def)
  have g0: "getColor MAX_ITERATIONS 0 = Inl (Log2Domain 0)"
    by (simp add: getColor_def log2_def MAX_ITERATIONS_def)
  have c: "complexFromPixel WINDOW_WIDTH WINDOW_HEIGHT
             (new_explorer WINDOW_WIDTH WINDOW_HEIGHT) 0 0 = Complex (- 5 / 2) (- 3 / 2)"
    by (simp add: complexFromPixel_def new_explorer_def WINDOW_WIDTH_def WINDOW_HEIGHT_def)
  have "(2::real) ^ 2 < (- 5 / 2)\<^sup>2 + (- 3 / 2)\<^sup>2" by (simp add: power2_eq_square)
  then have "2 < sqrt ((- 5 / 2)\<^sup>2 + (- 3 / 2)\<^sup>2)" by (rule real_less_rsqrt)
  then have far: "\<not> (cmod (Complex (- 5 / 2) (- 3 / 2)) \<le> 2 \<and> (1::int) < MAX_ITERATIONS)"
    by (simp add: cmod_def)
  have "calculateMandelbrot MAX_ITERATIONS (Complex (- 5 / 2) (- 3 / 2)) =
          calculateMandelbrot_loop cmod (\<lambda>z c. z * z + c) MAX_ITERATIONS
            (Complex (- 5 / 2) (- 3 / 2)) (0 * 0 + Complex (- 5 / 2) (- 3 / 2)) (0 + 1)"
    unfolding calculateMandelbrot_def calculateMandelbrot_fp_def
    by (rule loop_step) (simp_all add: MAX_ITERATIONS_def)
  also have "\<dots> = calculateMandelbrot_loop cmod (\<lambda>z c. z * z + c) MAX_ITERATIONS
            (Complex (- 5 / 2) (- 3 / 2)) (Complex (- 5 / 2) (- 3 / 2)) 1"
    by simp
  also have "\<dots> = 1" by (rule loop_stop [where fp_abs = cmod, OF far])
  finally have m: "calculateMandelbrot MAX_ITERATIONS (Complex (- 5 / 2) (- 3 / 2)) = 1" .
  have "0 < WINDOW_WIDTH" by (simp add: WINDOW_WIDTH_def)
  then have "pixel_color WINDOW_WIDTH WINDOW_HEIGHT MAX_ITERATIONS
     (new_explorer WINDOW_WIDTH WINDOW_HEIGHT) 0 = Inl (Log2Domain 0)"
    using c m g1 by (simp add: pixel_color_def)
  with g1 g0 c m show ?thesis by blast
qed

section \<open>The coordinate mapping\<close>

text \<open>
  Claim C5. For every pixel \<open>(x, y)\<close>, every viewport with a positive width and every
  view with a positive zoom, the mapping of lines 67 and 68 gives
  \<open>real = (x - W/2) / (zoom * W/4) + centerX\<close> and
  \<open>imag = (y - H/2) / (zoom * W/4) + centerY\<close>, the width scaling both axes, and the
  pixel-from-complex direction takes the result back to \<open>(x, y)\<close>; in exact arithmetic
  the round trip is an equality.
\<close>

theorem complexFromPixel_inverse:
  assumes "0 < W" "0 < zoom st"
  shows "complexFromPixel W H st x y =
           Complex ((real_of_int x - real W / 2) / (zoom st * real W / 4) + centerX st)
                   ((real_of_int y - real H / 2) / (zoom st * real W / 4) + centerY st) \<and>
         pixelFromComplex W H st (complexFromPixel W H st x y) = (real_of_int x, real_of_int y)"
  using assms by (simp add: complexFromPixel_def pixelFromComplex_def field_simps)

theorem complexFromPixel_inverse_witness:
  "0 < WINDOW_WIDTH \<and> 0 < zoom (new_explorer WINDOW_WIDTH WINDOW_HEIGHT) \<and>
   complexFromPixel WINDOW_WIDTH WINDOW_HEIGHT (new_explorer WINDOW_WIDTH WINDOW_HEIGHT) 200 150 =
     Complex (- 3 / 2) (- 3 / 4) \<and>
   pixelFromComplex WINDOW_WIDTH WINDOW_HEIGHT (new_explorer WINDOW_WIDTH WINDOW_HEIGHT)
     (Complex (- 3 / 2) (- 3 / 4)) = (200, 150)"
proof -
  have h: "0 < WINDOW_WIDTH" "0 < zoom (new_explorer WINDOW_WIDTH WINDOW_HEIGHT)"
    by (simp_all add: WINDOW_WIDTH_def new_explorer_def)
  have c: "Complex ((real_of_int 200 - real WINDOW_WIDTH / 2) /
             (zoom (new_explorer WINDOW_WIDTH WINDOW_HEIGHT) * real WINDOW_WIDTH / 4) +
             centerX (new_explorer WINDOW_WIDTH WINDOW_HEIGHT))
           ((real_of_int 150 - real WINDOW_HEIGHT / 2) /
             (zoom (new_explorer WINDOW_WIDTH WINDOW_HEIGHT) * real WINDOW_WIDTH / 4) +
             centerY (new_explorer WINDOW_WIDTH WINDOW_HEIGHT)) = Complex (- 3 / 2) (- 3 / 4)"
    by (simp add: WINDOW_WIDTH_def WINDOW_HEIGHT_def new_explorer_def)
  note t = complexFromPixel_inverse [OF h, of WINDOW_HEIGHT 200 150]
  have a: "complexFromPixel WINDOW_WIDTH WINDOW_HEIGHT
             (new_explorer WINDOW_WIDTH WINDOW_HEIGHT) 200 150 = Complex (- 3 / 2) (- 3 / 4)"
    using t [THEN conjunct1] unfolding c .
  have b: "pixelFromComplex WINDOW_WIDTH WINDOW_HEIGHT (new_explorer WINDOW_WIDTH WINDOW_HEIGHT)
             (complexFromPixel WINDOW_WIDTH WINDOW_HEIGHT
                (new_explorer WINDOW_WIDTH WINDOW_HEIGHT) 200 150) = (200, 150)"
    using t [THEN conjunct2] by simp
  from b have "pixelFromComplex WINDOW_WIDTH WINDOW_HEIGHT (new_explorer WINDOW_WIDTH WINDOW_HEIGHT)
             (Complex (- 3 / 2) (- 3 / 4)) = (200, 150)"
    unfolding a .
  with h a show ?thesis by blast
qed

section \<open>The scroll wheel\<close>

declare wheel_loop.simps [simp del]

lemma renderMandelbrot_sized:
  assumes "1 \<le> numThreads" "buffers_sized W H st"
  shows "renderMandelbrot W H N numThreads st = Inr (present_frame W H N st)"
  using renderMandelbrot_eq [of numThreads st W H N] assms
  by (simp add: buffers_sized_def present_frame_def)

lemma present_frame_fields [simp]:
  "centerX (present_frame W H N st) = centerX st"
  "centerY (present_frame W H N st) = centerY st"
  "zoom (present_frame W H N st) = zoom st"
  "dragStart (present_frame W H N st) = dragStart st"
  "isDragging (present_frame W H N st) = isDragging st"
  "presented (present_frame W H N st) = frame W H N st # presented st"
  by (simp_all add: present_frame_def)

lemma present_frame_sized [simp]:
  "buffers_sized W H st \<Longrightarrow> buffers_sized W H (present_frame W H N st)"
  by (simp add: buffers_sized_def present_frame_def frame_def)

lemma buffers_sized_view [simp]:
  "buffers_sized W H (st\<lparr>zoom := z\<rparr>) = buffers_sized W H st"
  "buffers_sized W H (st\<lparr>centerX := x\<rparr>) = buffers_sized W H st"
  "buffers_sized W H (st\<lparr>centerY := y\<rparr>) = buffers_sized W H st"
  "buffers_sized W H (st\<lparr>dragStart := d\<rparr>) = buffers_sized W H st"
  "buffers_sized W H (st\<lparr>isDragging := b\<rparr>) = buffers_sized W H st"
  by (simp_all add: buffers_sized_def)

lemma wheel_loop_stop:
  "\<not> \<bar>currentZoom - targetZoom\<bar> > 0.0001 \<Longrightarrow>
   wheel_loop W H N numThreads mouseX mouseY mouseWorldX mouseWorldY targetZoom steps
     currentZoom st = Inr st"
  by (subst wheel_loop.simps) simp

lemma wheel_loop_step:
  assumes "\<bar>currentZoom - targetZoom\<bar> > 0.0001" "1 \<le> numThreads" "buffers_sized W H st"
  shows "wheel_loop W H N numThreads mouseX mouseY mouseWorldX mouseWorldY targetZoom steps
           currentZoom st =
         (let st4 = present_frame W H N
                     (wheel_body W H mouseX mouseY mouseWorldX mouseWorldY targetZoom steps st)
          in if steps + 1 > 10 then Inr st4
             else wheel_loop W H N numThreads mouseX mouseY mouseWorldX mouseWorldY targetZoom
                    (steps + 1) (zoom st4) st4)"
proof -
  let ?b = "wheel_body W H mouseX mouseY mouseWorldX mouseWorldY targetZoom steps st"
  have s: "buffers_sized W H ?b" using assms(3) by (simp add: wheel_body_def Let_def)
  have r: "renderMandelbrot W H N numThreads ?b = Inr (present_frame W H N ?b)"
    by (rule renderMandelbrot_sized [OF assms(2) s])
  have z: "zoom ?b = zoom st + (targetZoom - zoom st) * (real steps / 10)"
    by (simp add: wheel_body_def Let_def)
  show ?thesis
    using assms(1) r z by (subst wheel_loop.simps) (simp add: Let_def wheel_body_def)
qed

lemma wheel_after_sized:
  "buffers_sized W H st \<Longrightarrow>
   buffers_sized W H (wheel_after W H N mouseX mouseY mouseWorldX mouseWorldY targetZoom k st)"
  by (induction k) (simp_all add: wheel_body_def Let_def)

lemma wheel_after_zoom:
  "zoom (wheel_after W H N mouseX mouseY mouseWorldX mouseWorldY targetZoom k st) =
   wheel_zoom targetZoom (zoom st) k"
  by (induction k) (simp_all add: wheel_body_def Let_def)

lemma wheel_after_presented:
  "length (presented (wheel_after W H N mouseX mouseY mouseWorldX mouseWorldY targetZoom k st)) =
   length (presented st) + k"
  by (induction k) (simp_all add: wheel_body_def Let_def)

lemma wheel_after_drag:
  "dragStart (wheel_after W H N mouseX mouseY mouseWorldX mouseWorldY targetZoom k st) = dragStart st \<and>
   isDragging (wheel_after W H N mouseX mouseY mouseWorldX mouseWorldY targetZoom k st) = isDragging st"
  by (induction k) (simp_all add: wheel_body_def Let_def)

lemma wheel_after_center:
  "0 < k \<Longrightarrow>
   centerX (wheel_after W H N mouseX mouseY mouseWorldX mouseWorldY targetZoom k st) =
     mouseWorldX - (real_of_int mouseX - real W / 2) / (wheel_zoom targetZoom (zoom st) k * real W / 4) \<and>
   centerY (wheel_after W H N mouseX mouseY mouseWorldX mouseWorldY targetZoom k st) =
     mouseWorldY - (real_of_int mouseY - real H / 2) / (wheel_zoom targetZoom (zoom st) k * real W / 4)"
  by (cases k) (simp_all add: wheel_body_def Let_def wheel_after_zoom)

lemma wheel_after_frame:
  "0 < k \<Longrightarrow>
   pixels (wheel_after W H N mouseX mouseY mouseWorldX mouseWorldY targetZoom k st) =
     frame W H N (wheel_after W H N mouseX mouseY mouseWorldX mouseWorldY targetZoom k st) \<and>
   hd (presented (wheel_after W H N mouseX mouseY mouseWorldX mouseWorldY targetZoom k st)) =
     pixels (wheel_after W H N mouseX mouseY mouseWorldX mouseWorldY targetZoom k st)"
  by (cases k) (simp_all add: present_frame_def frame_def pixel_color_def complexFromPixel_def)

lemma wheel_zoom_last: "wheel_zoom targetZoom z 10 = targetZoom"
  by (simp add: eval_nat_numeral)

lemma wheel_loop_after:
  assumes "1 \<le> numThreads" "buffers_sized W H st0" "k \<le> 9"
  shows "\<exists>m. k \<le> m \<and> m \<le> 10 \<and>
           wheel_loop W H N numThreads mouseX mouseY mouseWorldX mouseWorldY targetZoom (Suc k)
             (zoom (wheel_after W H N mouseX mouseY mouseWorldX mouseWorldY targetZoom k st0))
             (wheel_after W H N mouseX mouseY mouseWorldX mouseWorldY targetZoom k st0) =
           Inr (wheel_after W H N mouseX mouseY mouseWorldX mouseWorldY targetZoom m st0) \<and>
           (\<forall>j. k \<le> j \<and> j < m \<longrightarrow>
              0.0001 < \<bar>wheel_zoom targetZoom (zoom st0) j - targetZoom\<bar>) \<and>
           (m < 10 \<longrightarrow> \<bar>wheel_zoom targetZoom (zoom st0) m - targetZoom\<bar> \<le> 0.0001)"
  using assms(3)
proof (induction "9 - k" arbitrary: k)
  case 0
  then have k: "10 < Suc k + 1" "Suc k \<le> 10" "\<not> Suc k < 10" "k \<le> 10" by simp_all
  let ?st = "wheel_after W H N mouseX mouseY mouseWorldX mouseWorldY targetZoom k st0"
  have sz: "buffers_sized W H ?st" by (rule wheel_after_sized [OF assms(2)])
  show ?case
  proof (cases "\<bar>zoom ?st - targetZoom\<bar> > 0.0001")
    case True
    have "wheel_loop W H N numThreads mouseX mouseY mouseWorldX mouseWorldY targetZoom (Suc k)
             (zoom ?st) ?st =
           Inr (wheel_after W H N mouseX mouseY mouseWorldX mouseWorldY targetZoom (Suc k) st0)"
      using wheel_loop_step [OF True assms(1) sz, of N mouseX mouseY mouseWorldX mouseWorldY "Suc k"]
        k(1)
      by (simp add: Let_def)
    moreover have "\<forall>j. k \<le> j \<and> j < Suc k \<longrightarrow>
              0.0001 < \<bar>wheel_zoom targetZoom (zoom st0) j - targetZoom\<bar>"
      using True by (auto simp: wheel_after_zoom less_Suc_eq_le)
    moreover have "k \<le> Suc k" by simp
    moreover have "Suc k < 10 \<longrightarrow>
        \<bar>wheel_zoom targetZoom (zoom st0) (Suc k) - targetZoom\<bar> \<le> 0.0001"
      using k(3) by blast
    ultimately show ?thesis using k(2) by blast
  next
    case False
    then have "wheel_loop W H N numThreads mouseX mouseY mouseWorldX mouseWorldY targetZoom (Suc k)
             (zoom ?st) ?st = Inr ?st"
      by (rule wheel_loop_stop)
    moreover have "\<bar>wheel_zoom targetZoom (zoom st0) k - targetZoom\<bar> \<le> 0.0001"
      using False by (simp add: wheel_after_zoom)
    moreover have "k \<le> k" by simp
    moreover have "\<forall>j. k \<le> j \<and> j < k \<longrightarrow>
        0.0001 < \<bar>wheel_zoom targetZoom (zoom st0) j - targetZoom\<bar>" by simp
    ultimately show ?thesis using k(4) by blast
  qed
next
  case (Suc n)
  then have k: "k < 9" by simp
  let ?st = "wheel_after W H N mouseX mouseY mouseWorldX mouseWorldY targetZoom k st0"
  let ?st' = "wheel_after W H N mouseX mouseY mouseWorldX mouseWorldY targetZoom (Suc k) st0"
  have sz: "buffers_sized W H ?st" by (rule wheel_after_sized [OF assms(2)])
  show ?case
  proof (cases "\<bar>zoom ?st - targetZoom\<bar> > 0.0001")
    case True
    have step: "wheel_loop W H N numThreads mouseX mouseY mouseWorldX mouseWorldY targetZoom (Suc k)
             (zoom ?st) ?st =
           wheel_loop W H N numThreads mouseX mouseY mouseWorldX mouseWorldY targetZoom
             (Suc (Suc k)) (zoom ?st') ?st'"
      using wheel_loop_step [OF True assms(1) sz, of N mouseX mouseY mouseWorldX mouseWorldY "Suc k"] k
      by (simp add: Let_def)
    have "n = 9 - Suc k" "Suc k \<le> 9" using Suc.hyps(2) k by simp_all
    from Suc.hyps(1) [OF this]
    obtain m where m: "Suc k \<le> m" "m \<le> 10"
       "wheel_loop W H N numThreads mouseX mouseY mouseWorldX mouseWorldY targetZoom
             (Suc (Suc k)) (zoom ?st') ?st' =
        Inr (wheel_after W H N mouseX mouseY mouseWorldX mouseWorldY targetZoom m st0)"
       "\<forall>j. Suc k \<le> j \<and> j < m \<longrightarrow>
              0.0001 < \<bar>wheel_zoom targetZoom (zoom st0) j - targetZoom\<bar>"
       "m < 10 \<longrightarrow> \<bar>wheel_zoom targetZoom (zoom st0) m - targetZoom\<bar> \<le> 0.0001"
      by blast
    have "\<forall>j. k \<le> j \<and> j < m \<longrightarrow>
              0.0001 < \<bar>wheel_zoom targetZoom (zoom st0) j - targetZoom\<bar>"
    proof (intro allI impI)
      fix j assume j: "k \<le> j \<and> j < m"
      show "0.0001 < \<bar>wheel_zoom targetZoom (zoom st0) j - targetZoom\<bar>"
      proof (cases "j = k")
        case True
        then show ?thesis using \<open>\<bar>zoom ?st - targetZoom\<bar> > 0.0001\<close> by (simp add: wheel_after_zoom)
      next
        case False
        then show ?thesis using j m(4) by simp
      qed
    qed
    then show ?thesis using m step by (intro exI [of _ m]) simp
  next
    case False
    then have "wheel_loop W H N numThreads mouseX mouseY mouseWorldX mouseWorldY targetZoom (Suc k)
             (zoom ?st) ?st = Inr ?st"
      by (rule wheel_loop_stop)
    moreover have "\<bar>wheel_zoom targetZoom (zoom st0) k - targetZoom\<bar> \<le> 0.0001"
      using False by (simp add: wheel_after_zoom)
    ultimately show ?thesis using k by (intro exI [of _ k]) simp
  qed
qed

lemma handle_wheel_after:
  assumes "1 \<le> numThreads" "buffers_sized W H st"
  shows "\<exists>m\<le>10.
           handle_event W H N numThreads st (MouseWheel wheel_y mouseX mouseY) =
             Inr (wheel_after W H N mouseX mouseY
                    (Re (complexFromPixel W H st mouseX mouseY))
                    (Im (complexFromPixel W H st mouseX mouseY))
                    (if wheel_y > 0 then zoom st * 1.1 else zoom st / 1.1) m st) \<and>
           (\<forall>j<m. 0.0001 <
              \<bar>wheel_zoom (if wheel_y > 0 then zoom st * 1.1 else zoom st / 1.1) (zoom st) j -
                (if wheel_y > 0 then zoom st * 1.1 else zoom st / 1.1)\<bar>) \<and>
           (m < 10 \<longrightarrow>
              \<bar>wheel_zoom (if wheel_y > 0 then zoom st * 1.1 else zoom st / 1.1) (zoom st) m -
                (if wheel_y > 0 then zoom st * 1.1 else zoom st / 1.1)\<bar> \<le> 0.0001)"
proof -
  let ?t = "if wheel_y > 0 then zoom st * 1.1 else zoom st / 1.1"
  let ?ax = "Re (complexFromPixel W H st mouseX mouseY)"
  let ?ay = "Im (complexFromPixel W H st mouseX mouseY)"
  have k: "(0::nat) \<le> 9" by simp
  from wheel_loop_after [OF assms k, of N mouseX mouseY ?ax ?ay ?t]
  obtain m where m: "m \<le> 10"
     "wheel_loop W H N numThreads mouseX mouseY ?ax ?ay ?t (Suc 0) (zoom st) st =
        Inr (wheel_after W H N mouseX mouseY ?ax ?ay ?t m st)"
     "\<forall>j. 0 \<le> j \<and> j < m \<longrightarrow> 0.0001 < \<bar>wheel_zoom ?t (zoom st) j - ?t\<bar>"
     "m < 10 \<longrightarrow> \<bar>wheel_zoom ?t (zoom st) m - ?t\<bar> \<le> 0.0001"
    by auto
  have "handle_event W H N numThreads st (MouseWheel wheel_y mouseX mouseY) =
          wheel_loop W H N numThreads mouseX mouseY ?ax ?ay ?t (Suc 0) (zoom st) st"
    by (simp add: Let_def complexFromPixel_def)
  with m show ?thesis by auto
qed

lemma wheel_zoom_11:
  "wheel_zoom (11 / 10) 1 0 = 1"
  "wheel_zoom (11 / 10) 1 1 = 101 / 100"
  "wheel_zoom (11 / 10) 1 2 = 1028 / 1000"
  "wheel_zoom (11 / 10) 1 3 = 10496 / 10000"
  "wheel_zoom (11 / 10) 1 4 = 106976 / 100000"
  "wheel_zoom (11 / 10) 1 5 = 108488 / 100000"
  "wheel_zoom (11 / 10) 1 6 = 1093952 / 1000000"
  "wheel_zoom (11 / 10) 1 7 = 10981856 / 10000000"
  "wheel_zoom (11 / 10) 1 8 = 109963712 / 100000000"
  "wheel_zoom (11 / 10) 1 9 = 1099963712 / 1000000000"
  by (simp_all add: eval_nat_numeral)

lemma wheel_from_one:
  assumes "1 \<le> numThreads" "buffers_sized W H st" "zoom st = 1" "0 < wheel_y"
  shows "handle_event W H N numThreads st (MouseWheel wheel_y mouseX mouseY) =
             Inr (wheel_after W H N mouseX mouseY
                    (Re (complexFromPixel W H st mouseX mouseY))
                    (Im (complexFromPixel W H st mouseX mouseY)) (11 / 10) 9 st)"
proof -
  from handle_wheel_after [OF assms(1,2), of N wheel_y mouseX mouseY] assms(3,4)
  obtain m where m: "m \<le> 10"
    "handle_event W H N numThreads st (MouseWheel wheel_y mouseX mouseY) =
             Inr (wheel_after W H N mouseX mouseY
                    (Re (complexFromPixel W H st mouseX mouseY))
                    (Im (complexFromPixel W H st mouseX mouseY)) (11 / 10) m st)"
    "\<forall>j<m. 0.0001 < \<bar>wheel_zoom (11 / 10) 1 j - 11 / 10\<bar>"
    "m < 10 \<longrightarrow> \<bar>wheel_zoom (11 / 10) 1 m - 11 / 10\<bar> \<le> 0.0001"
    by auto
  have "\<not> 9 < m"
  proof
    assume "9 < m"
    with m(3) have "0.0001 < \<bar>wheel_zoom (11 / 10) 1 9 - 11 / 10\<bar>" by blast
    then show False by (simp add: wheel_zoom_11)
  qed
  moreover have "\<not> m < 9"
  proof
    assume l: "m < 9"
    then have "\<bar>wheel_zoom (11 / 10) 1 m - 11 / 10\<bar> \<le> 0.0001" using m(4) by simp
    moreover from l have "m \<in> {0, 1, 2, 3, 4, 5, 6, 7, 8}" by auto
    ultimately show False by (auto simp: wheel_zoom_11)
  qed
  ultimately have "m = 9" by simp
  with m(2) show ?thesis by simp
qed

lemma spec_zoom_value: "spec_zoom_substeps (11 / 10) 10 1 = 106513215599 / 100000000000"
  by (simp add: eval_nat_numeral)

text \<open>
  Claim C7, as amended. On every scroll notification the target zoom is the zoom times
  1.1 when \<open>wheel.y\<close> is positive and the zoom divided by 1.1 otherwise. The handler
  then makes \<open>m\<close> sub-steps, \<open>m\<close> at most 10; sub-step number \<open>k\<close> (counted from 1)
  moves the zoom \<open>k/10\<close> of the way from its current value to the target, sets the
  centre so that the point that was under the pointer stays there, and renders, so
  that \<open>m\<close> frames are presented, the last one showing the final view. The loop stops
  before the first sub-step at whose start the zoom is within 0.0001 of the target:
  the zoom is farther than that at the start of each sub-step made, and within it at
  the end unless 10 sub-steps were made.
\<close>

theorem wheel_substeps:
  assumes "1 \<le> numThreads" "buffers_sized W H st"
    "targetZoom = (if wheel_y > 0 then zoom st * 1.1 else zoom st / 1.1)"
  shows "\<exists>st' m. handle_event W H N numThreads st (MouseWheel wheel_y mouseX mouseY) = Inr st' \<and>
           m \<le> 10 \<and>
           length (presented st') = length (presented st) + m \<and>
           zoom st' = wheel_zoom targetZoom (zoom st) m \<and>
           (\<forall>k. wheel_zoom targetZoom (zoom st) (Suc k) =
                  wheel_zoom targetZoom (zoom st) k +
                  (targetZoom - wheel_zoom targetZoom (zoom st) k) * (real (Suc k) / 10)) \<and>
           (\<forall>k<m. 0.0001 < \<bar>wheel_zoom targetZoom (zoom st) k - targetZoom\<bar>) \<and>
           (m < 10 \<longrightarrow> \<bar>wheel_zoom targetZoom (zoom st) m - targetZoom\<bar> \<le> 0.0001) \<and>
           (0 < m \<longrightarrow>
              centerX st' = Re (complexFromPixel W H st mouseX mouseY) -
                (real_of_int mouseX - real W / 2) / (zoom st' * real W / 4) \<and>
              centerY st' = Im (complexFromPixel W H st mouseX mouseY) -
                (real_of_int mouseY - real H / 2) / (zoom st' * real W / 4) \<and>
              hd (presented st') = frame W H N st') \<and>
           (m = 0 \<longrightarrow> st' = st)"
proof -
  let ?ax = "Re (complexFromPixel W H st mouseX mouseY)"
  let ?ay = "Im (complexFromPixel W H st mouseX mouseY)"
  from handle_wheel_after [OF assms(1,2), of N wheel_y mouseX mouseY] assms(3)
  obtain m where m: "m \<le> 10"
    "handle_event W H N numThreads st (MouseWheel wheel_y mouseX mouseY) =
       Inr (wheel_after W H N mouseX mouseY ?ax ?ay targetZoom m st)"
    "\<forall>j<m. 0.0001 < \<bar>wheel_zoom targetZoom (zoom st) j - targetZoom\<bar>"
    "m < 10 \<longrightarrow> \<bar>wheel_zoom targetZoom (zoom st) m - targetZoom\<bar> \<le> 0.0001"
    by auto
  let ?st' = "wheel_after W H N mouseX mouseY ?ax ?ay targetZoom m st"
  have z: "zoom ?st' = wheel_zoom targetZoom (zoom st) m" by (rule wheel_after_zoom)
  have p: "length (presented ?st') = length (presented st) + m" by (rule wheel_after_presented)
  have c: "0 < m \<longrightarrow>
              centerX ?st' = ?ax - (real_of_int mouseX - real W / 2) / (zoom ?st' * real W / 4) \<and>
              centerY ?st' = ?ay - (real_of_int mouseY - real H / 2) / (zoom ?st' * real W / 4) \<and>
              hd (presented ?st') = frame W H N ?st'"
    using wheel_after_center [of m W H N mouseX mouseY ?ax ?ay targetZoom st]
      wheel_after_frame [of m W H N mouseX mouseY ?ax ?ay targetZoom st] z
    by simp
  have e: "m = 0 \<longrightarrow> ?st' = st" by simp
  have r: "\<forall>k. wheel_zoom targetZoom (zoom st) (Suc k) =
                  wheel_zoom targetZoom (zoom st) k +
                  (targetZoom - wheel_zoom targetZoom (zoom st) k) * (real (Suc k) / 10)"
    by simp
  show ?thesis
    using m p z r c e by (intro exI [of _ ?st'] exI [of _ m] conjI) assumption+
qed

theorem wheel_substeps_witness:
  "(1::nat) \<le> 8 \<and> buffers_sized WINDOW_WIDTH WINDOW_HEIGHT (new_explorer WINDOW_WIDTH WINDOW_HEIGHT) \<and>
   (\<exists>st' m. handle_event WINDOW_WIDTH WINDOW_HEIGHT MAX_ITERATIONS 8
               (new_explorer WINDOW_WIDTH WINDOW_HEIGHT) (MouseWheel 1 400 300) = Inr st' \<and>
            m \<le> 10 \<and>
            length (presented st') = m \<and>
            zoom st' = wheel_zoom (11 / 10) 1 m)"
proof -
  let ?st = "new_explorer WINDOW_WIDTH WINDOW_HEIGHT"
  have h: "(1::nat) \<le> 8" "buffers_sized WINDOW_WIDTH WINDOW_HEIGHT ?st"
    by (simp_all add: buffers_sized_def new_explorer_def)
  have t: "11 / 10 = (if (1::int) > 0 then zoom ?st * 1.1 else zoom ?st / 1.1)"
    by (simp add: new_explorer_def)
  have z: "zoom ?st = 1" "length (presented ?st) = 0" by (simp_all add: new_explorer_def)
  from wheel_substeps [OF h t, of MAX_ITERATIONS 400 300]
  obtain st' m where
    "handle_event WINDOW_WIDTH WINDOW_HEIGHT MAX_ITERATIONS 8 ?st (MouseWheel 1 400 300) = Inr st'"
    "m \<le> 10" "length (presented st') = length (presented ?st) + m"
    "zoom st' = wheel_zoom (11 / 10) (zoom ?st) m"
    by blast
  then have "\<exists>st' m. handle_event WINDOW_WIDTH WINDOW_HEIGHT MAX_ITERATIONS 8 ?st
                 (MouseWheel 1 400 300) = Inr st' \<and>
            m \<le> 10 \<and> length (presented st') = m \<and> zoom st' = wheel_zoom (11 / 10) 1 m"
    unfolding z by auto
  with h show ?thesis by blast
qed

text \<open>
  The claim as the specification states it has every sub-step move the zoom 1/10 of
  the way. From the initial view, one scroll in with the pointer at (400, 300) leaves
  the zoom at 1.099963712 after 9 sub-steps (1.01, 1.028, 1.0496, ...), where the
  rule of the claim gives 1.06513215599 after 10 sub-steps.
\<close>

theorem wheel_substeps_counterexample:
  "map_sum id zoom
     (handle_event WINDOW_WIDTH WINDOW_HEIGHT MAX_ITERATIONS 8
        (new_explorer WINDOW_WIDTH WINDOW_HEIGHT) (MouseWheel 1 400 300)) =
     Inr (1099963712 / 1000000000) \<and>
   spec_zoom_substeps (1 * 1.1) 10 1 = 106513215599 / 100000000000 \<and>
   map_sum id zoom
     (handle_event WINDOW_WIDTH WINDOW_HEIGHT MAX_ITERATIONS 8
        (new_explorer WINDOW_WIDTH WINDOW_HEIGHT) (MouseWheel 1 400 300)) \<noteq>
     Inr (spec_zoom_substeps (1 * 1.1) 10 1)"
proof -
  let ?st = "new_explorer WINDOW_WIDTH WINDOW_HEIGHT"
  have s: "buffers_sized WINDOW_WIDTH WINDOW_HEIGHT ?st" "zoom ?st = 1"
    by (simp_all add: buffers_sized_def new_explorer_def)
  have t: "(1::nat) \<le> 8" "(0::int) < 1" by simp_all
  have "map_sum id zoom
     (handle_event WINDOW_WIDTH WINDOW_HEIGHT MAX_ITERATIONS 8 ?st (MouseWheel 1 400 300)) =
     Inr (1099963712 / 1000000000)"
    using s(2) unfolding wheel_from_one [OF t(1) s t(2)]
    by (simp add: wheel_after_zoom wheel_zoom_11)
  moreover have "spec_zoom_substeps (1 * 1.1) 10 1 = 106513215599 / 100000000000"
    using spec_zoom_value by simp
  ultimately show ?thesis by simp
qed

text \<open>
  Claim C8. One scroll in from zoom 1.0 leaves the zoom within 0.0001 of 1.1, and the
  point of the plane under the pointer before the scroll is the point under it after.
\<close>

theorem scroll_in_from_one:
  assumes "1 \<le> numThreads" "buffers_sized W H st" "zoom st = 1" "0 < wheel_y"
  shows "\<exists>st'. handle_event W H N numThreads st (MouseWheel wheel_y mouseX mouseY) = Inr st' \<and>
           \<bar>zoom st' - 1.1\<bar> \<le> 0.0001 \<and>
           complexFromPixel W H st' mouseX mouseY = complexFromPixel W H st mouseX mouseY"
proof -
  let ?ax = "Re (complexFromPixel W H st mouseX mouseY)"
  let ?ay = "Im (complexFromPixel W H st mouseX mouseY)"
  let ?st' = "wheel_after W H N mouseX mouseY ?ax ?ay (11 / 10) 9 st"
  have h: "handle_event W H N numThreads st (MouseWheel wheel_y mouseX mouseY) = Inr ?st'"
    by (rule wheel_from_one [OF assms])
  have z: "zoom ?st' = 1099963712 / 1000000000"
    using assms(3) by (simp add: wheel_after_zoom wheel_zoom_11)
  have "0 < (9::nat)" by simp
  from wheel_after_center [OF this, of W H N mouseX mouseY ?ax ?ay "11 / 10" st]
  have c: "centerX ?st' = ?ax - (real_of_int mouseX - real W / 2) / (zoom ?st' * real W / 4)"
    "centerY ?st' = ?ay - (real_of_int mouseY - real H / 2) / (zoom ?st' * real W / 4)"
    by (simp_all add: wheel_after_zoom)
  have "complexFromPixel W H ?st' mouseX mouseY = Complex ?ax ?ay"
    unfolding complexFromPixel_def [of W H ?st'] c by simp
  then have a: "complexFromPixel W H ?st' mouseX mouseY = complexFromPixel W H st mouseX mouseY"
    by simp
  have "\<bar>zoom ?st' - 1.1\<bar> \<le> 0.0001" unfolding z by simp
  with h a show ?thesis by blast
qed

theorem scroll_in_from_one_witness:
  "(1::nat) \<le> 8 \<and> buffers_sized WINDOW_WIDTH WINDOW_HEIGHT (new_explorer WINDOW_WIDTH WINDOW_HEIGHT) \<and>
   zoom (new_explorer WINDOW_WIDTH WINDOW_HEIGHT) = 1 \<and> (0::int) < 1 \<and>
   (\<exists>st'. handle_event WINDOW_WIDTH WINDOW_HEIGHT MAX_ITERATIONS 8
             (new_explorer WINDOW_WIDTH WINDOW_HEIGHT) (MouseWheel 1 100 500) = Inr st' \<and>
          \<bar>zoom st' - 1.1\<bar> \<le> 0.0001 \<and>
          complexFromPixel WINDOW_WIDTH WINDOW_HEIGHT st' 100 500 =
            complexFromPixel WINDOW_WIDTH WINDOW_HEIGHT
              (new_explorer WINDOW_WIDTH WINDOW_HEIGHT) 100 500)"
proof -
  let ?st = "new_explorer WINDOW_WIDTH WINDOW_HEIGHT"
  have h: "(1::nat) \<le> 8" "buffers_sized WINDOW_WIDTH WINDOW_HEIGHT ?st" "zoom ?st = 1"
    "(0::int) < 1"
    by (simp_all add: buffers_sized_def new_explorer_def)
  from h scroll_in_from_one [OF h, of MAX_ITERATIONS 100 500] show ?thesis by blast
qed

section \<open>Dragging\<close>

lemma handle_events_append:
  "handle_events W H N numThreads st (xs @ ys) =
     (case handle_events W H N numThreads st xs of
        Inl e \<Rightarrow> Inl e
      | Inr st' \<Rightarrow> handle_events W H N numThreads st' ys)"
  by (induction xs arbitrary: st) (auto split: sum.splits)

lemma handle_motion:
  assumes "1 \<le> numThreads" "buffers_sized W H st" "isDragging st"
  shows "handle_event W H N numThreads st (MouseMotion x y) =
           Inr (present_frame W H N
             (st\<lparr>centerX := centerX st -
                     real_of_int (x - fst (dragStart st)) / (zoom st * real W / 4),
                  centerY := centerY st -
                     real_of_int (y - snd (dragStart st)) / (zoom st * real W / 4),
                  dragStart := (x, y)\<rparr>))"
  using assms by (simp add: Let_def renderMandelbrot_sized)

lemma drag_motions:
  assumes "1 \<le> numThreads" "buffers_sized W H st" "isDragging st"
  shows "\<exists>st'. handle_events W H N numThreads st (map (\<lambda>(x, y). MouseMotion x y) ms) = Inr st' \<and>
           buffers_sized W H st' \<and> isDragging st' \<and>
           dragStart st' = last (dragStart st # ms) \<and>
           zoom st' = zoom st \<and>
           centerX st' = centerX st -
             real_of_int (fst (last (dragStart st # ms)) - fst (dragStart st)) /
               (zoom st * real W / 4) \<and>
           centerY st' = centerY st -
             real_of_int (snd (last (dragStart st # ms)) - snd (dragStart st)) /
               (zoom st * real W / 4) \<and>
           length (presented st') = length (presented st) + length ms"
  using assms(2,3)
proof (induction ms arbitrary: st)
  case Nil
  then show ?case by simp
next
  case (Cons p ms)
  obtain x y where p: "p = (x, y)" by (cases p)
  let ?st1 = "present_frame W H N
             (st\<lparr>centerX := centerX st -
                     real_of_int (x - fst (dragStart st)) / (zoom st * real W / 4),
                  centerY := centerY st -
                     real_of_int (y - snd (dragStart st)) / (zoom st * real W / 4),
                  dragStart := (x, y)\<rparr>)"
  have h: "handle_event W H N numThreads st (MouseMotion x y) = Inr ?st1"
    by (rule handle_motion [OF assms(1) Cons.prems])
  have s1: "buffers_sized W H ?st1" "isDragging ?st1"
    using Cons.prems by simp_all
  from Cons.IH [OF s1]
  obtain st' where st': "handle_events W H N numThreads ?st1 (map (\<lambda>(x, y). MouseMotion x y) ms) = Inr st'"
      "buffers_sized W H st'" "isDragging st'"
      "dragStart st' = last (dragStart ?st1 # ms)"
      "zoom st' = zoom ?st1"
      "centerX st' = centerX ?st1 -
             real_of_int (fst (last (dragStart ?st1 # ms)) - fst (dragStart ?st1)) /
               (zoom ?st1 * real W / 4)"
      "centerY st' = centerY ?st1 -
             real_of_int (snd (last (dragStart ?st1 # ms)) - snd (dragStart ?st1)) /
               (zoom ?st1 * real W / 4)"
      "length (presented st') = length (presented ?st1) + length ms"
    by blast
  have d1: "dragStart ?st1 = (x, y)" "zoom ?st1 = zoom st"
    "centerX ?st1 = centerX st - real_of_int (x - fst (dragStart st)) / (zoom st * real W / 4)"
    "centerY ?st1 = centerY st - real_of_int (y - snd (dragStart st)) / (zoom st * real W / 4)"
    "length (presented ?st1) = length (presented st) + 1"
    by simp_all
  have l: "last (dragStart st # p # ms) = last ((x, y) # ms)" using p by simp
  have run: "handle_events W H N numThreads st (map (\<lambda>(x, y). MouseMotion x y) (p # ms)) = Inr st'"
    using h st'(1) p by simp
  have cx: "centerX st' = centerX st -
             real_of_int (fst (last (dragStart st # p # ms)) - fst (dragStart st)) /
               (zoom st * real W / 4)"
    unfolding st'(6) d1 l by (simp add: diff_divide_distrib)
  have cy: "centerY st' = centerY st -
             real_of_int (snd (last (dragStart st # p # ms)) - snd (dragStart st)) /
               (zoom st * real W / 4)"
    unfolding st'(7) d1 l by (simp add: diff_divide_distrib)
  have ds: "dragStart st' = last (dragStart st # p # ms)" unfolding st'(4) d1 l ..
  have z: "zoom st' = zoom st" using st'(5) d1(2) by simp
  have n: "length (presented st') = length (presented st) + length (p # ms)"
    using st'(8) d1(5) by simp
  show ?case
    using run st'(2,3) ds z cx cy n by (intro exI [of _ st'] conjI) assumption+
qed

text \<open>
  Claim C9. A drag is a press of the left button at \<open>(x0, y0)\<close>, any sequence of
  pointer moves and the release where the last move ended, \<open>(x1, y1)\<close>; the zoom is
  positive and does not change. Whatever the intermediate positions, the centre
  changes by \<open>-(x1 - x0) / (zoom * W/4)\<close> and \<open>-(y1 - y0) / (zoom * W/4)\<close>, which is
  also what the single move from \<open>(x0, y0)\<close> to \<open>(x1, y1)\<close> gives; in exact arithmetic
  both are equalities.
\<close>

theorem drag_net_change:
  assumes "1 \<le> numThreads" "buffers_sized W H st" "0 < zoom st"
    "last ((x0, y0) # ms) = (x1, y1)"
  shows "\<exists>st' st1.
           handle_events W H N numThreads st
             (MouseButtonDown SDL_BUTTON_LEFT x0 y0 # map (\<lambda>(x, y). MouseMotion x y) ms @
              [MouseButtonUp SDL_BUTTON_LEFT x1 y1]) = Inr st' \<and>
           centerX st' = centerX st - real_of_int (x1 - x0) / (zoom st * real W / 4) \<and>
           centerY st' = centerY st - real_of_int (y1 - y0) / (zoom st * real W / 4) \<and>
           zoom st' = zoom st \<and>
           handle_events W H N numThreads st
             [MouseButtonDown SDL_BUTTON_LEFT x0 y0, MouseMotion x1 y1,
              MouseButtonUp SDL_BUTTON_LEFT x1 y1] = Inr st1 \<and>
           centerX st1 = centerX st' \<and> centerY st1 = centerY st'"
proof -
  let ?s0 = "st\<lparr>dragStart := (x0, y0), isDragging := True\<rparr>"
  have s0: "buffers_sized W H ?s0" "isDragging ?s0" using assms(2) by simp_all
  have general: "\<exists>st'. handle_events W H N numThreads st
             (MouseButtonDown SDL_BUTTON_LEFT x0 y0 # map (\<lambda>(x, y). MouseMotion x y) ns @
              [MouseButtonUp SDL_BUTTON_LEFT x1 y1]) = Inr st' \<and>
           centerX st' = centerX st - real_of_int (x1 - x0) / (zoom st * real W / 4) \<and>
           centerY st' = centerY st - real_of_int (y1 - y0) / (zoom st * real W / 4) \<and>
           zoom st' = zoom st"
    if ns: "last ((x0, y0) # ns) = (x1, y1)" for ns
  proof -
    from drag_motions [OF assms(1) s0, of N ns]
    obtain s where s: "handle_events W H N numThreads ?s0 (map (\<lambda>(x, y). MouseMotion x y) ns) = Inr s"
      "dragStart s = last (dragStart ?s0 # ns)" "zoom s = zoom ?s0"
      "centerX s = centerX ?s0 -
             real_of_int (fst (last (dragStart ?s0 # ns)) - fst (dragStart ?s0)) /
               (zoom ?s0 * real W / 4)"
      "centerY s = centerY ?s0 -
             real_of_int (snd (last (dragStart ?s0 # ns)) - snd (dragStart ?s0)) /
               (zoom ?s0 * real W / 4)"
      by blast
    have lst: "last (dragStart ?s0 # ns) = (x1, y1)" using ns by simp
    let ?st' = "s\<lparr>isDragging := False\<rparr>"
    have "handle_events W H N numThreads st
             (MouseButtonDown SDL_BUTTON_LEFT x0 y0 # map (\<lambda>(x, y). MouseMotion x y) ns @
              [MouseButtonUp SDL_BUTTON_LEFT x1 y1]) = Inr ?st'"
      using s(1) by (simp add: handle_events_append)
    moreover have "centerX ?st' = centerX st - real_of_int (x1 - x0) / (zoom st * real W / 4)"
      using s(4) unfolding lst by simp
    moreover have "centerY ?st' = centerY st - real_of_int (y1 - y0) / (zoom st * real W / 4)"
      using s(5) unfolding lst by simp
    moreover have "zoom ?st' = zoom st" using s(3) by simp
    ultimately show ?thesis by blast
  qed
  from general [OF assms(4)] obtain st' where a:
    "handle_events W H N numThreads st
             (MouseButtonDown SDL_BUTTON_LEFT x0 y0 # map (\<lambda>(x, y). MouseMotion x y) ms @
              [MouseButtonUp SDL_BUTTON_LEFT x1 y1]) = Inr st'"
    "centerX st' = centerX st - real_of_int (x1 - x0) / (zoom st * real W / 4)"
    "centerY st' = centerY st - real_of_int (y1 - y0) / (zoom st * real W / 4)"
    "zoom st' = zoom st" by blast
  have "last ((x0, y0) # [(x1, y1)]) = (x1, y1)" by simp
  from general [OF this] obtain st1 where b:
    "handle_events W H N numThreads st
             [MouseButtonDown SDL_BUTTON_LEFT x0 y0, MouseMotion x1 y1,
              MouseButtonUp SDL_BUTTON_LEFT x1 y1] = Inr st1"
    "centerX st1 = centerX st - real_of_int (x1 - x0) / (zoom st * real W / 4)"
    "centerY st1 = centerY st - real_of_int (y1 - y0) / (zoom st * real W / 4)"
    by auto
  have "centerX st1 = centerX st'" "centerY st1 = centerY st'" using a b by simp_all
  with a b(1) show ?thesis by blast
qed

theorem drag_net_change_witness:
  "(1::nat) \<le> 8 \<and> buffers_sized WINDOW_WIDTH WINDOW_HEIGHT (new_explorer WINDOW_WIDTH WINDOW_HEIGHT) \<and>
   0 < zoom (new_explorer WINDOW_WIDTH WINDOW_HEIGHT) \<and>
   last ((100, 100) # [(120, 90), (90, 130), (300, 250)]) = ((300, 250) :: int \<times> int) \<and>
   (\<exists>st'. handle_events WINDOW_WIDTH WINDOW_HEIGHT MAX_ITERATIONS 8
             (new_explorer WINDOW_WIDTH WINDOW_HEIGHT)
             [MouseButtonDown SDL_BUTTON_LEFT 100 100, MouseMotion 120 90, MouseMotion 90 130,
              MouseMotion 300 250, MouseButtonUp SDL_BUTTON_LEFT 300 250] = Inr st' \<and>
          centerX st' = - 3 / 2 \<and> centerY st' = - 3 / 4)"
proof -
  let ?st = "new_explorer WINDOW_WIDTH WINDOW_HEIGHT"
  have h: "(1::nat) \<le> 8" "buffers_sized WINDOW_WIDTH WINDOW_HEIGHT ?st" "0 < zoom ?st"
    "last ((100, 100) # [(120, 90), (90, 130), (300, 250)]) = ((300, 250) :: int \<times> int)"
    by (simp_all add: buffers_sized_def new_explorer_def)
  have v: "centerX ?st - real_of_int (300 - 100) / (zoom ?st * real WINDOW_WIDTH / 4) = - 3 / 2"
    "centerY ?st - real_of_int (250 - 100) / (zoom ?st * real WINDOW_WIDTH / 4) = - 3 / 4"
    by (simp_all add: new_explorer_def WINDOW_WIDTH_def)
  from drag_net_change [OF h, of MAX_ITERATIONS]
  obtain st' where
    "handle_events WINDOW_WIDTH WINDOW_HEIGHT MAX_ITERATIONS 8 ?st
       (MouseButtonDown SDL_BUTTON_LEFT 100 100 #
        map (\<lambda>(x, y). MouseMotion x y) [(120, 90), (90, 130), (300, 250)] @
        [MouseButtonUp SDL_BUTTON_LEFT 300 250]) = Inr st'"
    "centerX st' = centerX ?st - real_of_int (300 - 100) / (zoom ?st * real WINDOW_WIDTH / 4)"
    "centerY st' = centerY ?st - real_of_int (250 - 100) / (zoom ?st * real WINDOW_WIDTH / 4)"
    by blast
  then have "\<exists>st'. handle_events WINDOW_WIDTH WINDOW_HEIGHT MAX_ITERATIONS 8 ?st
             [MouseButtonDown SDL_BUTTON_LEFT 100 100, MouseMotion 120 90, MouseMotion 90 130,
              MouseMotion 300 250, MouseButtonUp SDL_BUTTON_LEFT 300 250] = Inr st' \<and>
          centerX st' = - 3 / 2 \<and> centerY st' = - 3 / 4"
    unfolding v by auto
  with h show ?thesis by blast
qed

section \<open>What every state of the event loop satisfies\<close>

text \<open>
  The theorems about the handlers assume buffers of \<open>W * H\<close> cells and a positive
  zoom. The constructor establishes both and, with at least one thread, every handler
  completes and keeps both: in exact arithmetic no state that the event loop reaches
  divides by a zero zoom.
\<close>

lemma wheel_zoom_pos:
  "0 < targetZoom \<Longrightarrow> 0 < z \<Longrightarrow> k \<le> 10 \<Longrightarrow> 0 < wheel_zoom targetZoom z k"
proof (induction k)
  case 0
  then show ?case by simp
next
  case (Suc k)
  let ?f = "real (Suc k) / 10"
  have f: "0 < ?f" "?f \<le> 1" using Suc.prems(3) by simp_all
  have w: "0 < wheel_zoom targetZoom z k" using Suc by simp
  have "wheel_zoom targetZoom z (Suc k) =
          wheel_zoom targetZoom z k * (1 - ?f) + targetZoom * ?f"
    by (simp add: field_simps)
  moreover have "0 \<le> wheel_zoom targetZoom z k * (1 - ?f)" using w f(2) by simp
  moreover have "0 < targetZoom * ?f" using Suc.prems(1) f(1) by simp
  ultimately show ?case by linarith
qed

lemma handle_event_invariant:
  assumes "1 \<le> numThreads" "buffers_sized W H st" "0 < zoom st"
  shows "\<exists>st'. handle_event W H N numThreads st ev = Inr st' \<and>
           buffers_sized W H st' \<and> 0 < zoom st'"
proof (cases ev)
  case (MouseButtonDown b x y)
  then show ?thesis using assms by simp
next
  case (MouseButtonUp b x y)
  then show ?thesis using assms by simp
next
  case (MouseMotion x y)
  show ?thesis
  proof (cases "isDragging st")
    case True
    then show ?thesis
      using MouseMotion assms handle_motion [OF assms(1,2) True, of N x y] by simp
  next
    case False
    then show ?thesis using MouseMotion assms by simp
  qed
next
  case (MouseWheel wheel_y mouseX mouseY)
  let ?t = "if wheel_y > 0 then zoom st * 1.1 else zoom st / 1.1"
  have t: "0 < ?t" using assms(3) by simp
  from handle_wheel_after [OF assms(1,2), of N wheel_y mouseX mouseY]
  obtain m where m: "m \<le> 10"
    "handle_event W H N numThreads st (MouseWheel wheel_y mouseX mouseY) =
       Inr (wheel_after W H N mouseX mouseY
              (Re (complexFromPixel W H st mouseX mouseY))
              (Im (complexFromPixel W H st mouseX mouseY)) ?t m st)"
    by blast
  let ?st' = "wheel_after W H N mouseX mouseY
              (Re (complexFromPixel W H st mouseX mouseY))
              (Im (complexFromPixel W H st mouseX mouseY)) ?t m st"
  have "buffers_sized W H ?st'" by (rule wheel_after_sized [OF assms(2)])
  moreover have "0 < zoom ?st'"
    unfolding wheel_after_zoom by (rule wheel_zoom_pos [OF t assms(3) m(1)])
  ultimately show ?thesis using m(2) MouseWheel by blast
qed

lemma handle_events_invariant:
  assumes "1 \<le> numThreads"
  shows "buffers_sized W H st \<Longrightarrow> 0 < zoom st \<Longrightarrow>
         \<exists>st'. handle_events W H N numThreads st evs = Inr st' \<and>
           buffers_sized W H st' \<and> 0 < zoom st'"
proof (induction evs arbitrary: st)
  case Nil
  then show ?case by simp
next
  case (Cons ev evs)
  from handle_event_invariant [OF assms Cons.prems, of N ev]
  obtain st1 where s: "handle_event W H N numThreads st ev = Inr st1"
    "buffers_sized W H st1" "0 < zoom st1" by blast
  from Cons.IH [OF s(2,3)] s(1) show ?case by simp
qed

end
